theory Spec2Isabelle
  imports Complex_Main
begin

section \<open>Conventions\<close>

text \<open>
  A shallow embedding of the geometry resolution and rule classification code of the
  DXF extractor: \<^verbatim>\<open>src/ai/rule_based_classifier.py\<close>, \<^verbatim>\<open>src/ai/cache_manager.py\<close>,
  \<^verbatim>\<open>src/core/geometry_processor.py\<close> and \<^verbatim>\<open>src/core/block_extractor.py\<close>.

  Python floats are idealised as \<^typ>\<open>real\<close>: every comparison, product and sum is the
  exact one, and \<^verbatim>\<open>math.cos\<close>, \<^verbatim>\<open>math.sin\<close>, \<^verbatim>\<open>math.pi\<close> are the real functions and
  constant. Rounding, infinities and NaN are outside the model.
  The interpreter's limit on nested calls is modelled where the code recurses: the
  extractor has a version without the limit and one with it, which raises
  \<^verbatim>\<open>RecursionError\<close>.
  Python objects that are mutated (\<^verbatim>\<open>self.stats\<close>, the two caches) are passed in and
  returned. The regular expression engine (\<^verbatim>\<open>re\<close>), the clock (\<^verbatim>\<open>datetime.now\<close>) and the
  drawing store (\<^verbatim>\<open>ezdxf\<close>) are not code of the repository: the first two are parameters,
  the third is a record of the data the code reads from it.
\<close>

section \<open>Classification results (\<^verbatim>\<open>models/extracted_entity.py\<close>)\<close>

text \<open>
  The reasoning text is built by f-strings from the keyword score and, when it is below 1,
  the geometry score; the fallback has a fixed text. The constructors keep what the text
  is built from (the text itself is Korean prose with a percent format).
\<close>

datatype reasoning =
    KeywordMatch real
  | KeywordGeometryMatch real real
  | RuleMatchFailed

record classification =
  category :: string
  ctype :: string
  confidence :: real
  reasoning :: reasoning
  method_tag :: string

section \<open>The classification cache (\<^verbatim>\<open>ai/cache_manager.py\<close>)\<close>

record cache_entry =
  c_category :: string
  c_ctype :: string
  c_confidence :: real
  c_reasoning :: reasoning
  cached_at :: string

type_synonym cache_manager = "string \<rightharpoonup> cache_entry"

definition cache_get :: "cache_manager \<Rightarrow> string \<Rightarrow> cache_entry option" where
  "cache_get cm block_name = cm block_name"

text \<open>\<^verbatim>\<open>set\<close> stores the four fields it is given and the time of the call.\<close>

definition cache_set ::
  "cache_manager \<Rightarrow> string \<Rightarrow> classification \<Rightarrow> string \<Rightarrow> cache_manager" where
  "cache_set cm block_name result now =
     cm(block_name \<mapsto>
        \<lparr>c_category = category result, c_ctype = ctype result,
         c_confidence = confidence result, c_reasoning = reasoning result,
         cached_at = now\<rparr>)"

section \<open>The rule-based classifier (\<^verbatim>\<open>ai/rule_based_classifier.py\<close>)\<close>

text \<open>
  A rule is one dictionary of \<^verbatim>\<open>_build_rules\<close>; \<^verbatim>\<open>area_range\<close> and \<^verbatim>\<open>vertex_range\<close> are keys
  a rule may lack. The context dictionary is read at the keys \<^verbatim>\<open>area\<close> and
  \<^verbatim>\<open>vertex_count\<close> only; \<open>None\<close> stands for a missing key and for the value \<^verbatim>\<open>None\<close>, which
  \<^verbatim>\<open>context.get\<close> does not tell apart.
\<close>

record rule =
  rule_category :: string
  rule_ctype :: string
  rule_confidence :: real
  rule_keywords :: "string list"
  area_range :: "(real \<times> real) option"
  vertex_range :: "(real \<times> real) option"

record context_dict =
  ctx_area :: "real option"
  ctx_vertex_count :: "real option"

definition empty_context :: context_dict where
  "empty_context = \<lparr>ctx_area = None, ctx_vertex_count = None\<rparr>"

record stats =
  total_requests :: int
  cache_hits :: int
  rule_matches :: int
  geometry_matches :: int
  unclassified :: int

record rule_based_classifier =
  enable_cache :: bool
  cache :: "cache_manager option"
  stats :: stats
  rules :: "rule list"

text \<open>
  Python's truth test of a number: \<^verbatim>\<open>context.get('area')\<close> is false for a missing key,
  for \<^verbatim>\<open>None\<close> and for zero.
\<close>

fun truthy :: "real option \<Rightarrow> bool" where
  "truthy None = False"
| "truthy (Some v) = (v \<noteq> 0)"

text \<open>\<^verbatim>\<open>str.split(sep)\<close> for a one-character separator: the pieces between separators.\<close>

fun split_on :: "char \<Rightarrow> string \<Rightarrow> string list" where
  "split_on sep [] = [[]]"
| "split_on sep (c # cs) =
     (if c = sep then [] # split_on sep cs
      else (case split_on sep cs of
              [] \<Rightarrow> [[c]]
            | p # ps \<Rightarrow> (c # p) # ps))"

text \<open>
  \<^verbatim>\<open>_match_keywords\<close>. The parameter \<open>srch keyword text\<close> stands for
  \<^verbatim>\<open>re.compile(keyword, re.IGNORECASE).search(text)\<close> being a match.
\<close>

fun match_keywords :: "(string \<Rightarrow> string \<Rightarrow> bool) \<Rightarrow> string \<Rightarrow> string list \<Rightarrow> real" where
  "match_keywords srch block_name [] = 0"
| "match_keywords srch block_name (keyword # keywords) =
     (if srch keyword block_name then 1
      else if list_ex (srch keyword) (split_on (CHR ''$'') block_name) then 1
      else match_keywords srch block_name keywords)"

text \<open>\<^verbatim>\<open>_match_geometry\<close>: the score starts at 1 and is multiplied once per checked axis.\<close>

definition match_geometry :: "context_dict \<Rightarrow> rule \<Rightarrow> real" where
  "match_geometry context rule =
     (let score = 1;
          score =
            (case area_range rule of
               Some (min_area, max_area) \<Rightarrow>
                 (if truthy (ctx_area context) then
                    (let area = the (ctx_area context) in
                     if min_area \<le> area \<and> area \<le> max_area then score * 1
                     else if area < min_area * 0.5 \<or> area > max_area * 2 then score * 0.3
                     else score * 0.7)
                  else score)
             | None \<Rightarrow> score);
          score =
            (case vertex_range rule of
               Some (min_v, max_v) \<Rightarrow>
                 (if truthy (ctx_vertex_count context) then
                    (let vertex_count = the (ctx_vertex_count context) in
                     if min_v \<le> vertex_count \<and> vertex_count \<le> max_v then score * 1
                     else score * 0.5)
                  else score)
             | None \<Rightarrow> score)
      in score)"

text \<open>
  The body of the loop of \<^verbatim>\<open>_classify_by_rules\<close>: the pair is
  \<^verbatim>\<open>(best_match, best_confidence)\<close>.
\<close>

definition scan_rule ::
  "(string \<Rightarrow> string \<Rightarrow> bool) \<Rightarrow> string \<Rightarrow> context_dict \<Rightarrow>
   classification option \<times> real \<Rightarrow> rule \<Rightarrow> classification option \<times> real" where
  "scan_rule srch block_name context best rule =
     (let (best_match, best_confidence) = best;
          match_score = match_keywords srch block_name (rule_keywords rule)
      in if match_score > 0 then
           (let geo_score = match_geometry context rule;
                final_confidence = rule_confidence rule * match_score * geo_score
            in if final_confidence > best_confidence then
                 (Some \<lparr>category = rule_category rule, ctype = rule_ctype rule,
                        confidence = final_confidence,
                        reasoning = (if geo_score < 1
                                     then KeywordGeometryMatch match_score geo_score
                                     else KeywordMatch match_score),
                        method_tag = ''rule-based''\<rparr>,
                  final_confidence)
               else (best_match, best_confidence))
         else (best_match, best_confidence))"

fun scan_rules ::
  "(string \<Rightarrow> string \<Rightarrow> bool) \<Rightarrow> string \<Rightarrow> context_dict \<Rightarrow>
   classification option \<times> real \<Rightarrow> rule list \<Rightarrow> classification option \<times> real" where
  "scan_rules srch block_name context best [] = best"
| "scan_rules srch block_name context best (rule # rest) =
     scan_rules srch block_name context (scan_rule srch block_name context best rule) rest"

definition unclassified_result :: classification where
  "unclassified_result =
     \<lparr>category = ''other'', ctype = ''unclassified'', confidence = 0.3,
      reasoning = RuleMatchFailed, method_tag = ''rule-based''\<rparr>"

definition bump_rule_matches :: "rule_based_classifier \<Rightarrow> rule_based_classifier" where
  "bump_rule_matches self =
     self\<lparr>stats := (stats self)\<lparr>rule_matches := rule_matches (stats self) + 1\<rparr>\<rparr>"

definition bump_unclassified :: "rule_based_classifier \<Rightarrow> rule_based_classifier" where
  "bump_unclassified self =
     self\<lparr>stats := (stats self)\<lparr>unclassified := unclassified (stats self) + 1\<rparr>\<rparr>"

definition bump_total_requests :: "rule_based_classifier \<Rightarrow> rule_based_classifier" where
  "bump_total_requests self =
     self\<lparr>stats := (stats self)\<lparr>total_requests := total_requests (stats self) + 1\<rparr>\<rparr>"

definition bump_cache_hits :: "rule_based_classifier \<Rightarrow> rule_based_classifier" where
  "bump_cache_hits self =
     self\<lparr>stats := (stats self)\<lparr>cache_hits := cache_hits (stats self) + 1\<rparr>\<rparr>"

text \<open>
  \<^verbatim>\<open>_classify_by_rules\<close>. A \<^verbatim>\<open>Classification\<close> object is always true in a truth test, so
  \<^verbatim>\<open>best_match and best_confidence > 0.5\<close> asks for a match and for the score.
\<close>

definition classify_by_rules ::
  "(string \<Rightarrow> string \<Rightarrow> bool) \<Rightarrow> rule_based_classifier \<Rightarrow> string \<Rightarrow> context_dict \<Rightarrow>
   classification \<times> rule_based_classifier" where
  "classify_by_rules srch self block_name context =
     (let (best_match, best_confidence) =
            scan_rules srch block_name context (None, 0) (rules self)
      in case best_match of
           Some m \<Rightarrow>
             (if best_confidence > 0.5 then (m, bump_rule_matches self)
              else (unclassified_result, bump_unclassified self))
         | None \<Rightarrow> (unclassified_result, bump_unclassified self))"

text \<open>
  The cache probe of \<^verbatim>\<open>classify\<close>: \<^verbatim>\<open>self.enable_cache and self.cache\<close>, then
  \<^verbatim>\<open>self.cache.get(block_name)\<close>. A \<^verbatim>\<open>CacheManager\<close> object is always true; a stored entry
  is a dictionary with five keys, so it is true as well.
\<close>

definition cache_probe :: "rule_based_classifier \<Rightarrow> string \<Rightarrow> cache_entry option" where
  "cache_probe self block_name =
     (if enable_cache self then
        (case cache self of
           Some cm \<Rightarrow> cache_get cm block_name
         | None \<Rightarrow> None)
      else None)"

definition cache_store ::
  "rule_based_classifier \<Rightarrow> string \<Rightarrow> classification \<Rightarrow> string \<Rightarrow> rule_based_classifier" where
  "cache_store self block_name result now =
     (if enable_cache self then
        (case cache self of
           Some cm \<Rightarrow> self\<lparr>cache := Some (cache_set cm block_name result now)\<rparr>
         | None \<Rightarrow> self)
      else self)"

text \<open>
  \<^verbatim>\<open>classify\<close>; \<open>context\<close> is optional (\<^verbatim>\<open>context or {}\<close>), \<open>now\<close> is the clock reading
  that \<^verbatim>\<open>CacheManager.set\<close> takes when it stores.
\<close>

definition context_or_empty :: "context_dict option \<Rightarrow> context_dict" where
  "context_or_empty context = (case context of None \<Rightarrow> empty_context | Some c \<Rightarrow> c)"

definition classify ::
  "(string \<Rightarrow> string \<Rightarrow> bool) \<Rightarrow> rule_based_classifier \<Rightarrow> string \<Rightarrow> context_dict option \<Rightarrow>
   string \<Rightarrow> classification \<times> rule_based_classifier" where
  "classify srch self block_name context now =
     (let self = bump_total_requests self
      in case cache_probe self block_name of
           Some cached \<Rightarrow>
             (\<lparr>category = c_category cached, ctype = c_ctype cached,
               confidence = c_confidence cached, reasoning = c_reasoning cached,
               method_tag = ''cached''\<rparr>,
              bump_cache_hits self)
         | None \<Rightarrow>
             (let (result, self) =
                    classify_by_rules srch self block_name (context_or_empty context)
              in (result, cache_store self block_name result now)))"

section \<open>Geometry utilities (\<^verbatim>\<open>core/geometry_processor.py\<close>)\<close>

type_synonym point = "real \<times> real"

text \<open>\<^verbatim>\<open>calculate_area\<close>: the shoelace sum over the indices, then half its absolute value.\<close>

definition calculate_area :: "point list \<Rightarrow> real" where
  "calculate_area vertices =
     (if length vertices < 3 then 0
      else (let n = length vertices;
                area = foldl (\<lambda>area i.
                         (let j = (i + 1) mod n
                          in area + fst (vertices ! i) * snd (vertices ! j)
                                  - fst (vertices ! j) * snd (vertices ! i)))
                       0 [0..<n]
            in \<bar>area\<bar> / 2))"

text \<open>\<^verbatim>\<open>math.radians\<close>.\<close>

definition radians :: "real \<Rightarrow> real" where
  "radians deg = deg * pi / 180"

text \<open>
  \<^verbatim>\<open>transform_vertices\<close>: the loop appends one transformed vertex per vertex, in order.
\<close>

definition transform_vertices ::
  "point list \<Rightarrow> point \<Rightarrow> real \<Rightarrow> real \<Rightarrow> real \<Rightarrow> point list" where
  "transform_vertices vertices insert_point rotation scale_x scale_y =
     (if vertices = [] then []
      else (let rad = radians rotation;
                cos_r = cos rad;
                sin_r = sin rad
            in map (\<lambda>(x, y).
                      (let x = x * scale_x;
                           y = y * scale_y;
                           x_rot = x * cos_r - y * sin_r;
                           y_rot = x * sin_r + y * cos_r;
                           x_final = x_rot + fst insert_point;
                           y_final = y_rot + snd insert_point
                       in (x_final, y_final)))
                   vertices))"

text \<open>\<^verbatim>\<open>extract_circle_vertices\<close>: one vertex per segment index.\<close>

definition extract_circle_vertices :: "point \<Rightarrow> real \<Rightarrow> nat \<Rightarrow> point list" where
  "extract_circle_vertices center radius segments =
     map (\<lambda>i. (let angle = 2 * pi * real i / real segments;
                    x = fst center + radius * cos angle;
                    y = snd center + radius * sin angle
                in (x, y)))
         [0..<segments]"

section \<open>The drawing store, as the extractor reads it\<close>

text \<open>
  An \<^verbatim>\<open>INSERT\<close> entity carries the name of the block it places, the insertion point, the
  rotation in degrees and the two scale attributes, which \<^verbatim>\<open>getattr\<close> reads with default
  1. A polyline is the list of its points. Every other entity type is \<open>OTHER\<close>.
  A block has its own name and its entities; the drawing maps names to blocks and has the
  entities of the model space.
\<close>

record insert_attribs =
  dxf_name :: string
  dxf_insert :: point
  dxf_rotation :: real
  dxf_xscale :: "real option"
  dxf_yscale :: "real option"

datatype dxf_entity =
    LWPOLYLINE "point list"
  | POLYLINE "point list"
  | CIRCLE point real
  | INSERT insert_attribs
  | OTHER string

record block =
  bname :: string
  bentities :: "dxf_entity list"

record drawing =
  blocks :: "string \<rightharpoonup> block"
  modelspace :: "dxf_entity list"

text \<open>\<^verbatim>\<open>Matrix44\<close> of the drawing library: the extractor only passes it on.\<close>

typedecl matrix44

section \<open>Extracted entities (\<^verbatim>\<open>models/extracted_entity.py\<close>)\<close>

record extracted_entity =
  block_name :: string
  geometry_type :: string
  vertices :: "point list"
  area :: "real option"
  insert_point :: point
  rotation :: real
  classification :: "classification option"

section \<open>The block extractor (\<^verbatim>\<open>core/block_extractor.py\<close>)\<close>

text \<open>\<^verbatim>\<open>self.block_geometry_cache\<close>: block name to vertex list.\<close>

type_synonym geometry_cache = "string \<rightharpoonup> point list"

text \<open>The vertices the scan of \<^verbatim>\<open>_extract_block_geometry\<close> reads off one entity.\<close>

fun entity_vertices :: "dxf_entity \<Rightarrow> point list option" where
  "entity_vertices (LWPOLYLINE points) = Some points"
| "entity_vertices (POLYLINE points) = Some points"
| "entity_vertices (CIRCLE center radius) = Some (extract_circle_vertices center radius 32)"
| "entity_vertices (INSERT ins) = None"
| "entity_vertices (OTHER t) = None"

text \<open>
  The body of the scan loop; the pair is \<^verbatim>\<open>(largest_polyline, largest_area)\<close>. The test
  \<^verbatim>\<open>vertices and len(vertices) >= 3\<close> asks for a list that is there, not empty, and long
  enough.
\<close>

definition scan_entity ::
  "point list option \<times> real \<Rightarrow> dxf_entity \<Rightarrow> point list option \<times> real" where
  "scan_entity largest entity =
     (let (largest_polyline, largest_area) = largest
      in case entity_vertices entity of
           None \<Rightarrow> (largest_polyline, largest_area)
         | Some vs \<Rightarrow>
             (if vs \<noteq> [] \<and> length vs \<ge> 3 then
                (let area = calculate_area vs
                 in if area > largest_area then (Some vs, area)
                    else (largest_polyline, largest_area))
              else (largest_polyline, largest_area)))"

definition scan_block :: "dxf_entity list \<Rightarrow> point list option" where
  "scan_block entities = fst (foldl scan_entity (None, 0) entities)"

text \<open>
  \<^verbatim>\<open>_extract_block_geometry\<close>: a name in the cache answers at once; otherwise the entities
  are scanned, and the result is stored when it is true, which is when it is a list that
  is not empty.
\<close>

definition extract_block_geometry ::
  "geometry_cache \<Rightarrow> block \<Rightarrow> point list option \<times> geometry_cache" where
  "extract_block_geometry gcache block =
     (let block_name = bname block
      in case gcache block_name of
           Some g \<Rightarrow> (Some g, gcache)
         | None \<Rightarrow>
             (let largest_polyline = scan_block (bentities block)
              in (largest_polyline,
                  (case largest_polyline of
                     None \<Rightarrow> gcache
                   | Some g \<Rightarrow> if g \<noteq> [] then gcache(block_name \<mapsto> g) else gcache))))"

text \<open>\<^verbatim>\<open>getattr(insert_entity.dxf, 'xscale', 1.0)\<close>.\<close>

definition getattr_scale :: "real option \<Rightarrow> real" where
  "getattr_scale s = (case s of None \<Rightarrow> 1 | Some v \<Rightarrow> v)"

text \<open>
  The entity \<^verbatim>\<open>_extract_from_insert\<close> builds for an instance whose block has geometry:
  the transform, the area of the transformed vertices, the constructor call.
\<close>

definition make_entity :: "insert_attribs \<Rightarrow> point list \<Rightarrow> extracted_entity" where
  "make_entity insert_entity geometry =
     (let insert_point = dxf_insert insert_entity;
          rotation = dxf_rotation insert_entity;
          scale_x = getattr_scale (dxf_xscale insert_entity);
          scale_y = getattr_scale (dxf_yscale insert_entity);
          transformed_vertices =
            transform_vertices geometry insert_point rotation scale_x scale_y;
          area = calculate_area transformed_vertices
      in \<lparr>block_name = dxf_name insert_entity, geometry_type = ''LWPOLYLINE'',
          vertices = transformed_vertices, area = Some area,
          insert_point = insert_point, rotation = rotation, classification = None\<rparr>)"

text \<open>
  \<^verbatim>\<open>_extract_from_insert\<close>, with the geometry cache passed in and returned, and its loop
  over the entities of the block, \<open>extract_nested\<close>, which calls it again one level deeper.
  This is the recursion as written, on an interpreter with room for any nesting of calls;
  the version below adds the interpreter's limit.
\<close>

function extract_from_insert ::
    "drawing \<Rightarrow> geometry_cache \<Rightarrow> insert_attribs \<Rightarrow> int \<Rightarrow> int \<Rightarrow> matrix44 option \<Rightarrow>
     extracted_entity list \<times> geometry_cache"
  and extract_nested ::
    "drawing \<Rightarrow> geometry_cache \<Rightarrow> dxf_entity list \<Rightarrow> int \<Rightarrow> int \<Rightarrow>
     extracted_entity list \<times> geometry_cache"
where
  "extract_from_insert doc gcache insert_entity depth max_depth parent_transform =
     (if depth > max_depth then ([], gcache)
      else (case blocks doc (dxf_name insert_entity) of
              None \<Rightarrow> ([], gcache)
            | Some block \<Rightarrow>
                (let (geometry, gcache) = extract_block_geometry gcache block;
                     entities =
                       (case geometry of
                          None \<Rightarrow> []
                        | Some g \<Rightarrow> if g \<noteq> [] then [make_entity insert_entity g] else []);
                     (nested_entities, gcache) =
                       extract_nested doc gcache (bentities block) (depth + 1) max_depth
                 in (entities @ nested_entities, gcache))))"
| "extract_nested doc gcache [] depth max_depth = ([], gcache)"
| "extract_nested doc gcache (nested_entity # rest) depth max_depth =
     (case nested_entity of
        INSERT ins \<Rightarrow>
          (let (nested_entities, gcache) =
                 extract_from_insert doc gcache ins depth max_depth None;
               (more, gcache) = extract_nested doc gcache rest depth max_depth
           in (nested_entities @ more, gcache))
      | _ \<Rightarrow> extract_nested doc gcache rest depth max_depth)"
  by pat_completeness auto
termination
  by (relation
       "measures
          [\<lambda>x. case x of
                  Inl (doc, gcache, ins, depth, max_depth, pt) \<Rightarrow> nat (max_depth + 1 - depth)
                | Inr (doc, gcache, es, depth, max_depth) \<Rightarrow> nat (max_depth + 1 - depth),
           \<lambda>x. case x of
                  Inl (doc, gcache, ins, depth, max_depth, pt) \<Rightarrow> 0
                | Inr (doc, gcache, es, depth, max_depth) \<Rightarrow> Suc (length es)]")
     auto

text \<open>
  \<^verbatim>\<open>extract_all_blocks\<close>: the loop over the model space calls \<^verbatim>\<open>_extract_from_insert\<close> at
  depth 0 for every \<^verbatim>\<open>INSERT\<close>.
\<close>

fun extract_modelspace ::
  "drawing \<Rightarrow> geometry_cache \<Rightarrow> dxf_entity list \<Rightarrow> int \<Rightarrow>
   extracted_entity list \<times> geometry_cache" where
  "extract_modelspace doc gcache [] max_depth = ([], gcache)"
| "extract_modelspace doc gcache (entity # rest) max_depth =
     (case entity of
        INSERT ins \<Rightarrow>
          (let (extracted, gcache) = extract_from_insert doc gcache ins 0 max_depth None;
               (more, gcache) = extract_modelspace doc gcache rest max_depth
           in (extracted @ more, gcache))
      | _ \<Rightarrow> extract_modelspace doc gcache rest max_depth)"

definition extract_all_blocks ::
  "drawing \<Rightarrow> geometry_cache \<Rightarrow> int \<Rightarrow> extracted_entity list \<times> geometry_cache" where
  "extract_all_blocks doc gcache max_depth =
     extract_modelspace doc gcache (modelspace doc) max_depth"

subsection \<open>The extractor under the interpreter's recursion limit\<close>

text \<open>
  The code recurses with no handler around the call and never changes the interpreter's
  limit on nested calls, so a call beyond that limit raises \<^verbatim>\<open>RecursionError\<close>, which
  passes through every caller up to the caller of \<^verbatim>\<open>extract_all_blocks\<close>.
\<close>

datatype error = RecursionError

text \<open>
  \<open>frames\<close> is the number of nested activations of \<^verbatim>\<open>_extract_from_insert\<close> the limit
  still leaves room for, each with the calls its body makes: with none left the call
  raises, otherwise the body runs as above and its nested calls have one activation less.
  The limit is 1000 frames in all unless changed, so \<open>frames\<close> is below 1000 in a run of
  the repository's tools. The loop over the entities runs inside the activation; an error
  of a nested call ends it. The cache at the time of the error is not returned.
\<close>

function extract_from_insert_limited ::
    "drawing \<Rightarrow> geometry_cache \<Rightarrow> insert_attribs \<Rightarrow> int \<Rightarrow> int \<Rightarrow> matrix44 option \<Rightarrow> nat \<Rightarrow>
     error + extracted_entity list \<times> geometry_cache"
  and extract_nested_limited ::
    "drawing \<Rightarrow> geometry_cache \<Rightarrow> dxf_entity list \<Rightarrow> int \<Rightarrow> int \<Rightarrow> nat \<Rightarrow>
     error + extracted_entity list \<times> geometry_cache"
where
  "extract_from_insert_limited doc gcache insert_entity depth max_depth parent_transform 0 =
     Inl RecursionError"
| "extract_from_insert_limited doc gcache insert_entity depth max_depth parent_transform
     (Suc frames) =
     (if depth > max_depth then Inr ([], gcache)
      else (case blocks doc (dxf_name insert_entity) of
              None \<Rightarrow> Inr ([], gcache)
            | Some block \<Rightarrow>
                (let (geometry, gcache) = extract_block_geometry gcache block;
                     entities =
                       (case geometry of
                          None \<Rightarrow> []
                        | Some g \<Rightarrow> if g \<noteq> [] then [make_entity insert_entity g] else [])
                 in case extract_nested_limited doc gcache (bentities block) (depth + 1)
                           max_depth frames of
                      Inl err \<Rightarrow> Inl err
                    | Inr (nested_entities, gcache) \<Rightarrow>
                        Inr (entities @ nested_entities, gcache))))"
| "extract_nested_limited doc gcache [] depth max_depth frames = Inr ([], gcache)"
| "extract_nested_limited doc gcache (nested_entity # rest) depth max_depth frames =
     (case nested_entity of
        INSERT ins \<Rightarrow>
          (case extract_from_insert_limited doc gcache ins depth max_depth None frames of
             Inl err \<Rightarrow> Inl err
           | Inr (nested_entities, gcache) \<Rightarrow>
               (case extract_nested_limited doc gcache rest depth max_depth frames of
                  Inl err \<Rightarrow> Inl err
                | Inr (remaining, gcache) \<Rightarrow> Inr (nested_entities @ remaining, gcache)))
      | _ \<Rightarrow> extract_nested_limited doc gcache rest depth max_depth frames)"
  by pat_completeness auto
termination
  by (relation
       "measures
          [\<lambda>x. case x of
                  Inl (doc, gcache, ins, depth, max_depth, pt, frames) \<Rightarrow> frames
                | Inr (doc, gcache, es, depth, max_depth, frames) \<Rightarrow> frames,
           \<lambda>x. case x of
                  Inl (doc, gcache, ins, depth, max_depth, pt, frames) \<Rightarrow> 0
                | Inr (doc, gcache, es, depth, max_depth, frames) \<Rightarrow> Suc (length es)]")
     auto

fun extract_modelspace_limited ::
  "drawing \<Rightarrow> geometry_cache \<Rightarrow> dxf_entity list \<Rightarrow> int \<Rightarrow> nat \<Rightarrow>
   error + extracted_entity list \<times> geometry_cache" where
  "extract_modelspace_limited doc gcache [] max_depth frames = Inr ([], gcache)"
| "extract_modelspace_limited doc gcache (entity # rest) max_depth frames =
     (case entity of
        INSERT ins \<Rightarrow>
          (case extract_from_insert_limited doc gcache ins 0 max_depth None frames of
             Inl err \<Rightarrow> Inl err
           | Inr (extracted, gcache) \<Rightarrow>
               (case extract_modelspace_limited doc gcache rest max_depth frames of
                  Inl err \<Rightarrow> Inl err
                | Inr (remaining, gcache) \<Rightarrow> Inr (extracted @ remaining, gcache)))
      | _ \<Rightarrow> extract_modelspace_limited doc gcache rest max_depth frames)"

definition extract_all_blocks_limited ::
  "drawing \<Rightarrow> geometry_cache \<Rightarrow> int \<Rightarrow> nat \<Rightarrow> error + extracted_entity list \<times> geometry_cache" where
  "extract_all_blocks_limited doc gcache max_depth frames =
     extract_modelspace_limited doc gcache (modelspace doc) max_depth frames"

section \<open>Notions the properties of the classifier are stated with\<close>

text \<open>
  The final score of one rule on a candidate, as the rule table's description gives it:
  base confidence times keyword score times geometry score. A rule whose keywords do not
  match has final score 0.
\<close>

definition final_score ::
  "(string \<Rightarrow> string \<Rightarrow> bool) \<Rightarrow> string \<Rightarrow> context_dict \<Rightarrow> rule \<Rightarrow> real" where
  "final_score srch name context rule =
     rule_confidence rule * match_keywords srch name (rule_keywords rule)
       * match_geometry context rule"

text \<open>The best final score of a table; 0 is the score the scan starts from.\<close>

definition best_score ::
  "(string \<Rightarrow> string \<Rightarrow> bool) \<Rightarrow> string \<Rightarrow> context_dict \<Rightarrow> rule list \<Rightarrow> real" where
  "best_score srch name context rs =
     Max (set (0 # map (final_score srch name context) rs))"

text \<open>The classification the scan builds for a rule that replaces the best match.\<close>

definition rule_result ::
  "(string \<Rightarrow> string \<Rightarrow> bool) \<Rightarrow> string \<Rightarrow> context_dict \<Rightarrow> rule \<Rightarrow> classification" where
  "rule_result srch n c r =
     \<lparr>category = rule_category r, ctype = rule_ctype r,
      confidence = final_score srch n c r,
      reasoning = (if match_geometry c r < 1
                   then KeywordGeometryMatch 1 (match_geometry c r)
                   else KeywordMatch 1),
      method_tag = ''rule-based''\<rparr>"

text \<open>The test \<^verbatim>\<open>self.enable_cache and self.cache\<close> of \<^verbatim>\<open>classify\<close>.\<close>

definition cache_on :: "rule_based_classifier \<Rightarrow> bool" where
  "cache_on self = (enable_cache self \<and> cache self \<noteq> None)"

text \<open>The classification \<^verbatim>\<open>classify\<close> builds from a stored entry.\<close>

definition entry_of :: "cache_entry \<Rightarrow> classification" where
  "entry_of e = \<lparr>category = c_category e, ctype = c_ctype e, confidence = c_confidence e,
                  reasoning = c_reasoning e, method_tag = ''cached''\<rparr>"

text \<open>
  A run of calls on one classifier, as the loops of the command line tools make them:
  each call is a block name, a context and the clock reading.
\<close>

fun classify_all ::
  "(string \<Rightarrow> string \<Rightarrow> bool) \<Rightarrow> rule_based_classifier \<Rightarrow>
   (string \<times> context_dict option \<times> string) list \<Rightarrow> rule_based_classifier" where
  "classify_all srch self [] = self"
| "classify_all srch self ((name, context, now) # calls) =
     classify_all srch (snd (classify srch self name context now)) calls"

text \<open>
  The two factors of the geometry score as the rule table's description words them,
  where a value counts as supplied when the key is present.
\<close>

definition claimed_area_factor :: "context_dict \<Rightarrow> rule \<Rightarrow> real" where
  "claimed_area_factor c r =
     (case area_range r of
        None \<Rightarrow> 1
      | Some (min_area, max_area) \<Rightarrow>
          (case ctx_area c of
             None \<Rightarrow> 1
           | Some a \<Rightarrow>
               if min_area \<le> a \<and> a \<le> max_area then 1
               else if a < min_area / 2 \<or> a > 2 * max_area then 0.3
               else 0.7))"

definition claimed_vertex_factor :: "context_dict \<Rightarrow> rule \<Rightarrow> real" where
  "claimed_vertex_factor c r =
     (case vertex_range r of
        None \<Rightarrow> 1
      | Some (min_v, max_v) \<Rightarrow>
          (case ctx_vertex_count c of
             None \<Rightarrow> 1
           | Some v \<Rightarrow> if min_v \<le> v \<and> v \<le> max_v then 1 else 0.5))"

text \<open>
  The two factors as \<^verbatim>\<open>_match_geometry\<close> computes them: a value counts as supplied when
  it is present and not zero.
\<close>

definition area_factor :: "context_dict \<Rightarrow> rule \<Rightarrow> real" where
  "area_factor c r =
     (case area_range r of
        None \<Rightarrow> 1
      | Some (min_area, max_area) \<Rightarrow>
          (case ctx_area c of
             None \<Rightarrow> 1
           | Some a \<Rightarrow>
               if a = 0 then 1
               else if min_area \<le> a \<and> a \<le> max_area then 1
               else if a < min_area / 2 \<or> a > 2 * max_area then 0.3
               else 0.7))"

definition vertex_factor :: "context_dict \<Rightarrow> rule \<Rightarrow> real" where
  "vertex_factor c r =
     (case vertex_range r of
        None \<Rightarrow> 1
      | Some (min_v, max_v) \<Rightarrow>
          (case ctx_vertex_count c of
             None \<Rightarrow> 1
           | Some v \<Rightarrow>
               if v = 0 then 1
               else if min_v \<le> v \<and> v \<le> max_v then 1 else 0.5))"

subsection \<open>A matcher and a rule table to run the classifier on\<close>

text \<open>
  \<open>literal_search\<close> is what \<^verbatim>\<open>re.search\<close> decides for a keyword without metacharacters
  on text of the same letter case: the keyword occurs in the text. The sample table holds
  four rules of \<^verbatim>\<open>_build_rules\<close>, in their order there, with those of their keywords that
  are plain ASCII words.
\<close>

fun literal_search :: "string \<Rightarrow> string \<Rightarrow> bool" where
  "literal_search keyword [] = (keyword = [])"
| "literal_search keyword (c # cs) =
     (take (length keyword) (c # cs) = keyword \<or> literal_search keyword cs)"

definition parking_electric :: rule where
  "parking_electric =
     \<lparr>rule_category = ''parking'', rule_ctype = ''electric'', rule_confidence = 0.95,
      rule_keywords = [''ELECTRIC'', ''EV'', ''ECO'', ''CHARGE''],
      area_range = Some (10000000, 15000000), vertex_range = None\<rparr>"

definition parking_basic :: rule where
  "parking_basic =
     \<lparr>rule_category = ''parking'', rule_ctype = ''basic'', rule_confidence = 0.90,
      rule_keywords = [''NORMAL'', ''STANDARD'', ''REGULAR'', ''BASIC'', ''STD'', ''PARK'',
                       ''PARKING''],
      area_range = Some (10000000, 15000000), vertex_range = None\<rparr>"

definition structure_column :: rule where
  "structure_column =
     \<lparr>rule_category = ''structure'', rule_ctype = ''column'', rule_confidence = 0.95,
      rule_keywords = [''COLUMN'', ''COL'', ''PILLAR'', ''POST'', ''PIER''],
      area_range = Some (100000, 1000000000), vertex_range = Some (4, 100)\<rparr>"

definition circulation_elevator :: rule where
  "circulation_elevator =
     \<lparr>rule_category = ''circulation'', rule_ctype = ''elevator'', rule_confidence = 0.95,
      rule_keywords = [''ELEVATOR'', ''LIFT'', ''EV'', ''HOIST''],
      area_range = Some (3, 10), vertex_range = None\<rparr>"

definition sample_rules :: "rule list" where
  "sample_rules = [parking_electric, parking_basic, structure_column, circulation_elevator]"

definition zero_stats :: stats where
  "zero_stats = \<lparr>total_requests = 0, cache_hits = 0, rule_matches = 0,
                  geometry_matches = 0, unclassified = 0\<rparr>"

definition sample_classifier :: "bool \<Rightarrow> rule_based_classifier" where
  "sample_classifier enable =
     \<lparr>enable_cache = enable, cache = (if enable then Some Map.empty else None),
      stats = zero_stats, rules = sample_rules\<rparr>"

section \<open>Notions the properties of the geometry code are stated with\<close>

subsection \<open>The three steps of a placement\<close>

text \<open>
  Scaling of the two coordinates, rotation about the origin by an angle in degrees, and
  translation, each on one point.
\<close>

definition scale_point :: "real \<Rightarrow> real \<Rightarrow> point \<Rightarrow> point" where
  "scale_point sx sy p = (fst p * sx, snd p * sy)"

definition rotate_point :: "real \<Rightarrow> point \<Rightarrow> point" where
  "rotate_point deg p =
     (fst p * cos (radians deg) - snd p * sin (radians deg),
      fst p * sin (radians deg) + snd p * cos (radians deg))"

definition translate_point :: "point \<Rightarrow> point \<Rightarrow> point" where
  "translate_point t p = (fst p + fst t, snd p + snd t)"


text \<open>The square of side 10 centred at the origin.\<close>

definition square10 :: "point list" where
  "square10 = [(-5, -5), (5, -5), (5, 5), (-5, 5)]"


subsection \<open>Instances, their depth, and the entities they stand for\<close>

text \<open>
  The instance references among a list of entities, in order; the instance references
  inside the block an instance places (none when the block is missing); the instances
  \<open>k\<close> levels below an instance; and the instances at depth \<open>d\<close> of a drawing, where the
  instances of the model space have depth 0.
\<close>

fun inserts :: "dxf_entity list \<Rightarrow> insert_attribs list" where
  "inserts [] = []"
| "inserts (INSERT ins # es) = ins # inserts es"
| "inserts (e # es) = inserts es"

definition children :: "drawing \<Rightarrow> insert_attribs \<Rightarrow> insert_attribs list" where
  "children doc ins =
     (case blocks doc (dxf_name ins) of None \<Rightarrow> [] | Some b \<Rightarrow> inserts (bentities b))"

fun below :: "drawing \<Rightarrow> nat \<Rightarrow> insert_attribs \<Rightarrow> insert_attribs list" where
  "below doc 0 ins = [ins]"
| "below doc (Suc k) ins = concat (map (below doc k) (children doc ins))"

definition instances_at :: "drawing \<Rightarrow> nat \<Rightarrow> insert_attribs list" where
  "instances_at doc d = concat (map (below doc d) (inserts (modelspace doc)))"


text \<open>
  The entity an instance gets from a resolved geometry (none for an absent or empty
  one), and from the scan of its own block.
\<close>

definition own_entities :: "point list option \<Rightarrow> insert_attribs \<Rightarrow> extracted_entity list" where
  "own_entities geometry ins =
     (case geometry of None \<Rightarrow> [] | Some g \<Rightarrow> if g \<noteq> [] then [make_entity ins g] else [])"

definition own :: "drawing \<Rightarrow> insert_attribs \<Rightarrow> extracted_entity list" where
  "own doc ins =
     (case blocks doc (dxf_name ins) of
        None \<Rightarrow> []
      | Some b \<Rightarrow> own_entities (scan_block (bentities b)) ins)"


text \<open>
  \<open>e\<close> is the entity of instance \<open>ins\<close>: the block of \<open>ins\<close> exists, its scan yields
  a polygon, and \<open>e\<close> is built from the attributes of \<open>ins\<close> and that polygon alone.
\<close>

definition entity_of_instance :: "drawing \<Rightarrow> insert_attribs \<Rightarrow> extracted_entity \<Rightarrow> bool" where
  "entity_of_instance doc ins e =
     (\<exists>b g. blocks doc (dxf_name ins) = Some b \<and> scan_block (bentities b) = Some g \<and>
            e = make_entity ins g)"


text \<open>
  What a traversal from an instance with \<open>n\<close> further levels allowed is expected to
  yield, without any cache: the instance's own entity, then the yield of each nested
  instance in order, with one level less.
\<close>

fun expected :: "drawing \<Rightarrow> nat \<Rightarrow> insert_attribs \<Rightarrow> extracted_entity list" where
  "expected doc 0 ins = own doc ins"
| "expected doc (Suc n) ins = own doc ins @ concat (map (expected doc n) (children doc ins))"


text \<open>
  Block names identify blocks in a drawing (a name looked up may differ from the name the
  block carries, as with a lookup that ignores case). A geometry cache agrees with a
  drawing when each entry under the name of a block is the scan of that block; the empty
  cache of a new extractor does.
\<close>

definition names_ok :: "drawing \<Rightarrow> bool" where
  "names_ok doc =
     (\<forall>n n' b b'. blocks doc n = Some b \<and> blocks doc n' = Some b' \<and> bname b = bname b'
        \<longrightarrow> b = b')"

definition cache_ok :: "drawing \<Rightarrow> geometry_cache \<Rightarrow> bool" where
  "cache_ok doc gc =
     (\<forall>n b g. blocks doc n = Some b \<and> gc (bname b) = Some g
        \<longrightarrow> scan_block (bentities b) = Some g)"


text \<open>
  A traversal from an instance at a depth fits in \<open>frames\<close> activations when there is at
  least one, and either there are as many as the levels from that depth to one past the
  depth limit, or the drawing has no instance \<open>frames\<close> levels below the instance.
\<close>

definition fits :: "drawing \<Rightarrow> insert_attribs \<Rightarrow> int \<Rightarrow> int \<Rightarrow> nat \<Rightarrow> bool" where
  "fits doc ins depth max_depth frames =
     (0 < frames \<and> (max_depth - depth + 2 \<le> int frames \<or> below doc frames ins = []))"

text \<open>The cache test of \<^verbatim>\<open>_extract_block_geometry\<close>: the block's name is in the cache.\<close>

definition memoized :: "geometry_cache \<Rightarrow> block \<Rightarrow> bool" where
  "memoized gc b = (gc (bname b) \<noteq> None)"


subsection \<open>Drawings to run the extractor on\<close>

text \<open>
  A unit square; an instance at the origin with no rotation and default scales; a chain of
  sixteen blocks \<^verbatim>\<open>B0\<close> to \<^verbatim>\<open>B15\<close>, each a square and (but for the last) an instance of the
  next, placed once in the model space, so the instances reach depth 15; and a block that
  places itself.
\<close>

definition unit_square :: "point list" where
  "unit_square = [(0, 0), (1, 0), (1, 1), (0, 1)]"

definition place :: "string \<Rightarrow> insert_attribs" where
  "place n = \<lparr>dxf_name = n, dxf_insert = (0, 0), dxf_rotation = 0,
              dxf_xscale = None, dxf_yscale = None\<rparr>"

definition chain_names :: "string list" where
  "chain_names = [''B0'', ''B1'', ''B2'', ''B3'', ''B4'', ''B5'', ''B6'', ''B7'', ''B8'', ''B9'',
                  ''B10'', ''B11'', ''B12'', ''B13'', ''B14'', ''B15'']"

definition chain_block :: "nat \<Rightarrow> block" where
  "chain_block k =
     \<lparr>bname = chain_names ! k,
      bentities = LWPOLYLINE unit_square #
                  (if k < 15 then [INSERT (place (chain_names ! Suc k))] else [])\<rparr>"

definition chain_doc :: drawing where
  "chain_doc =
     \<lparr>blocks = map_of (zip chain_names (map chain_block [0..<16])),
      modelspace = [INSERT (place ''B0'')]\<rparr>"

definition loop_doc :: drawing where
  "loop_doc =
     \<lparr>blocks = [''LOOP'' \<mapsto> \<lparr>bname = ''LOOP'',
                               bentities = [LWPOLYLINE unit_square, INSERT (place ''LOOP'')]\<rparr>],
      modelspace = [INSERT (place ''LOOP'')]\<rparr>"


text \<open>
  A parent block with a square and a nested instance of a child block at (5, 5), with two
  placements of the parent; a drawing with an instance of a missing block and an instance
  of a block whose only polyline has two points; and the two blocks alone.
\<close>

definition child_at :: insert_attribs where
  "child_at = \<lparr>dxf_name = ''C'', dxf_insert = (5, 5), dxf_rotation = 0,
               dxf_xscale = None, dxf_yscale = None\<rparr>"

definition parent_a :: insert_attribs where
  "parent_a = \<lparr>dxf_name = ''P'', dxf_insert = (100, 100), dxf_rotation = 90,
               dxf_xscale = Some 2, dxf_yscale = Some 1\<rparr>"

definition parent_b :: insert_attribs where
  "parent_b = \<lparr>dxf_name = ''P'', dxf_insert = (0, 0), dxf_rotation = 0,
               dxf_xscale = None, dxf_yscale = None\<rparr>"

definition nest_doc :: drawing where
  "nest_doc =
     \<lparr>blocks = [''P'' \<mapsto> \<lparr>bname = ''P'',
                            bentities = [LWPOLYLINE unit_square, INSERT child_at]\<rparr>,
                ''C'' \<mapsto> \<lparr>bname = ''C'', bentities = [LWPOLYLINE unit_square]\<rparr>],
      modelspace = [INSERT parent_a]\<rparr>"


definition degenerate_block :: block where
  "degenerate_block = \<lparr>bname = ''D'', bentities = [LWPOLYLINE [(0, 0), (1, 1)]]\<rparr>"

definition square_block :: block where
  "square_block = \<lparr>bname = ''C'', bentities = [LWPOLYLINE unit_square]\<rparr>"


section \<open>Properties of the classifier\<close>

subsection \<open>The rule scan\<close>

lemmas sample_defs = sample_rules_def parking_electric_def parking_basic_def
  structure_column_def circulation_elevator_def sample_classifier_def zero_stats_def

lemma match_keywords_cases:
  "match_keywords srch n ks = 0 \<or> match_keywords srch n ks = 1"
  by (induction ks) auto

lemma scan_rule_keep:
  "final_score srch n c r \<le> bc \<Longrightarrow> 0 \<le> bc \<Longrightarrow> scan_rule srch n c (bm, bc) r = (bm, bc)"
  using match_keywords_cases [of srch n "rule_keywords r"]
  by (auto simp: scan_rule_def final_score_def Let_def)

lemma scan_rule_replace:
  "final_score srch n c r > bc \<Longrightarrow> 0 \<le> bc \<Longrightarrow>
   scan_rule srch n c (bm, bc) r =
     (Some \<lparr>category = rule_category r, ctype = rule_ctype r,
            confidence = final_score srch n c r,
            reasoning = (if match_geometry c r < 1
                         then KeywordGeometryMatch 1 (match_geometry c r)
                         else KeywordMatch 1),
            method_tag = ''rule-based''\<rparr>, final_score srch n c r)"
  using match_keywords_cases [of srch n "rule_keywords r"]
  by (auto simp: scan_rule_def final_score_def Let_def)

lemma fold_max_ge: "(b::real) \<le> fold max xs b"
proof (induction xs arbitrary: b)
  case Nil
  show ?case by simp
next
  case (Cons x xs)
  have "b \<le> max x b" by simp
  also have "\<dots> \<le> fold max xs (max x b)" by (rule Cons.IH)
  finally show ?case by simp
qed

lemma scan_rules_char:
  assumes "0 \<le> bc"
  shows "\<exists>bm'. scan_rules srch n c (bm, bc) rs
              = (bm', fold max (map (final_score srch n c) rs) bc) \<and>
           (if fold max (map (final_score srch n c) rs) bc > bc
            then \<exists>k<length rs.
                   final_score srch n c (rs ! k) = fold max (map (final_score srch n c) rs) bc \<and>
                   (\<forall>l<k. final_score srch n c (rs ! l) < fold max (map (final_score srch n c) rs) bc) \<and>
                   bm' = Some (rule_result srch n c (rs ! k))
            else bm' = bm)"
  using assms
proof (induction rs arbitrary: bm bc)
  case Nil
  then show ?case by simp
next
  case (Cons r rs)
  let ?fs = "final_score srch n c"
  let ?M = "\<lambda>b xs. fold max (map ?fs xs) b"
  show ?case
  proof (cases "?fs r > bc")
    case True
    have step: "scan_rule srch n c (bm, bc) r = (Some (rule_result srch n c r), ?fs r)"
      using scan_rule_replace [OF True Cons.prems] by (simp add: rule_result_def)
    have nn: "0 \<le> ?fs r" using True Cons.prems by simp
    from Cons.IH [OF nn, of "Some (rule_result srch n c r)"]
    obtain bm' where run: "scan_rules srch n c (Some (rule_result srch n c r), ?fs r) rs = (bm', ?M (?fs r) rs)"
      and sel: "if ?M (?fs r) rs > ?fs r
            then \<exists>k<length rs. ?fs (rs ! k) = ?M (?fs r) rs \<and>
                   (\<forall>l<k. ?fs (rs ! l) < ?M (?fs r) rs) \<and>
                   bm' = Some (rule_result srch n c (rs ! k))
            else bm' = Some (rule_result srch n c r)"
      by blast
    have Meq: "?M bc (r # rs) = ?M (?fs r) rs"
      using True by (simp add: max_def)
    have ge: "?fs r \<le> ?M (?fs r) rs" by (rule fold_max_ge)
    have gt: "?M bc (r # rs) > bc" using True ge Meq by linarith
    have pick: "\<exists>k<length (r # rs). ?fs ((r # rs) ! k) = ?M (?fs r) rs \<and>
                   (\<forall>l<k. ?fs ((r # rs) ! l) < ?M (?fs r) rs) \<and>
                   bm' = Some (rule_result srch n c ((r # rs) ! k))"
    proof (cases "?M (?fs r) rs > ?fs r")
      case big: True
      with sel obtain k where k: "k < length rs" "?fs (rs ! k) = ?M (?fs r) rs"
        "\<forall>l<k. ?fs (rs ! l) < ?M (?fs r) rs" "bm' = Some (rule_result srch n c (rs ! k))"
        by auto
      have "\<forall>l<Suc k. ?fs ((r # rs) ! l) < ?M (?fs r) rs"
        using k(3) big by (auto simp: nth_Cons split: nat.splits)
      with k show ?thesis by (intro exI [of _ "Suc k"]) simp
    next
      case small: False
      with sel have "bm' = Some (rule_result srch n c r)" by simp
      moreover have "?fs r = ?M (?fs r) rs" using small ge by linarith
      ultimately show ?thesis by (intro exI [of _ 0]) simp
    qed
    show ?thesis using step run gt pick Meq by simp
  next
    case False
    then have le: "?fs r \<le> bc" by simp
    have step: "scan_rule srch n c (bm, bc) r = (bm, bc)"
      using scan_rule_keep [OF le Cons.prems] .
    have Meq: "?M bc (r # rs) = ?M bc rs"
      using le by (simp add: max_def)
    from Cons.IH [OF Cons.prems, of bm]
    obtain bm' where run: "scan_rules srch n c (bm, bc) rs = (bm', ?M bc rs)"
      and sel: "if ?M bc rs > bc
            then \<exists>k<length rs. ?fs (rs ! k) = ?M bc rs \<and>
                   (\<forall>l<k. ?fs (rs ! l) < ?M bc rs) \<and>
                   bm' = Some (rule_result srch n c (rs ! k))
            else bm' = bm"
      by blast
    have pick: "?M bc rs > bc \<Longrightarrow> \<exists>k<length (r # rs). ?fs ((r # rs) ! k) = ?M bc rs \<and>
                   (\<forall>l<k. ?fs ((r # rs) ! l) < ?M bc rs) \<and>
                   bm' = Some (rule_result srch n c ((r # rs) ! k))"
    proof -
      assume big: "?M bc rs > bc"
      with sel obtain k where k: "k < length rs" "?fs (rs ! k) = ?M bc rs"
        "\<forall>l<k. ?fs (rs ! l) < ?M bc rs" "bm' = Some (rule_result srch n c (rs ! k))"
        by auto
      have "\<forall>l<Suc k. ?fs ((r # rs) ! l) < ?M bc rs"
        using k(3) big le by (auto simp: nth_Cons split: nat.splits)
      with k show ?thesis by (intro exI [of _ "Suc k"]) simp
    qed
    show ?thesis
    proof (cases "?M bc rs > bc")
      case True
      with pick step run Meq show ?thesis by simp
    next
      case False
      with sel step run Meq show ?thesis by simp
    qed
  qed
qed

lemma best_score_fold:
  "best_score srch n c rs = fold max (map (final_score srch n c) rs) 0"
  unfolding best_score_def by (rule Max.set_eq_fold)

lemma cache_probe_bump [simp]:
  "cache_probe (bump_total_requests self) n = cache_probe self n"
  by (simp add: cache_probe_def bump_total_requests_def)

lemma rules_bump [simp]:
  "rules (bump_total_requests self) = rules self"
  "rules (bump_rule_matches self) = rules self"
  "rules (bump_unclassified self) = rules self"
  "rules (bump_cache_hits self) = rules self"
  by (simp_all add: bump_total_requests_def bump_rule_matches_def bump_unclassified_def
        bump_cache_hits_def)

lemma classify_by_rules_high:
  assumes "best_score srch n c (rules self) > 0.5"
  shows "\<exists>k<length (rules self).
           final_score srch n c (rules self ! k) = best_score srch n c (rules self) \<and>
           (\<forall>l<k. final_score srch n c (rules self ! l) < best_score srch n c (rules self)) \<and>
           fst (classify_by_rules srch self n c) = rule_result srch n c (rules self ! k)"
proof -
  let ?b = "best_score srch n c (rules self)"
  from scan_rules_char [of 0 srch n c None "rules self"]
  obtain bm' where run: "scan_rules srch n c (None, 0) (rules self) = (bm', ?b)"
    and sel: "if ?b > 0
        then \<exists>k<length (rules self).
               final_score srch n c (rules self ! k) = ?b \<and>
               (\<forall>l<k. final_score srch n c (rules self ! l) < ?b) \<and>
               bm' = Some (rule_result srch n c (rules self ! k))
        else bm' = None"
    by (auto simp: best_score_fold)
  from assms have "?b > 0" by simp
  with sel obtain k where k: "k < length (rules self)"
      "final_score srch n c (rules self ! k) = ?b"
      "\<forall>l<k. final_score srch n c (rules self ! l) < ?b"
      "bm' = Some (rule_result srch n c (rules self ! k))"
    by auto
  have "fst (classify_by_rules srch self n c) = rule_result srch n c (rules self ! k)"
    using run k(4) assms by (simp add: classify_by_rules_def)
  with k show ?thesis by blast
qed

lemma classify_by_rules_low:
  assumes "best_score srch n c (rules self) \<le> 0.5"
  shows "fst (classify_by_rules srch self n c) = unclassified_result"
proof -
  let ?b = "best_score srch n c (rules self)"
  from scan_rules_char [of 0 srch n c None "rules self"]
  obtain bm' where run: "scan_rules srch n c (None, 0) (rules self) = (bm', ?b)"
    by (auto simp: best_score_fold)
  show ?thesis using run assms
    by (simp add: classify_by_rules_def split: option.splits)
qed

lemma classify_miss:
  assumes "cache_probe self n = None"
  shows "fst (classify srch self n context now)
         = fst (classify_by_rules srch (bump_total_requests self) n (context_or_empty context))"
  using assms by (simp add: classify_def Let_def split: prod.splits)

text \<open>
  C1. When the cache does not answer, \<^verbatim>\<open>classify\<close> decides by the best final score of
  the table: above 0.5 the result carries the category and type of a rule that attains
  the best score, the best score as confidence and the method tag \<^verbatim>\<open>rule-based\<close>; at
  0.5 or below the result is \<^verbatim>\<open>other\<close>, \<^verbatim>\<open>unclassified\<close> with confidence 0.3.
\<close>

theorem classify_threshold:
  assumes "cache_probe self name = None"
  shows "(best_score srch name (context_or_empty context) (rules self) > 0.5 \<longrightarrow>
            (\<exists>r\<in>set (rules self).
               final_score srch name (context_or_empty context) r
                 = best_score srch name (context_or_empty context) (rules self) \<and>
               category (fst (classify srch self name context now)) = rule_category r \<and>
               ctype (fst (classify srch self name context now)) = rule_ctype r) \<and>
            confidence (fst (classify srch self name context now))
              = best_score srch name (context_or_empty context) (rules self) \<and>
            method_tag (fst (classify srch self name context now)) = ''rule-based'') \<and>
         (best_score srch name (context_or_empty context) (rules self) \<le> 0.5 \<longrightarrow>
            category (fst (classify srch self name context now)) = ''other'' \<and>
            ctype (fst (classify srch self name context now)) = ''unclassified'' \<and>
            confidence (fst (classify srch self name context now)) = 0.3)"
proof (intro conjI impI)
  let ?c = "context_or_empty context"
  let ?res = "fst (classify srch self name context now)"
  let ?self = "bump_total_requests self"
  have res: "?res = fst (classify_by_rules srch ?self name ?c)"
    by (rule classify_miss [OF assms])
  {
    assume high: "best_score srch name ?c (rules self) > 0.5"
    then have "best_score srch name ?c (rules ?self) > 0.5" by simp
    from classify_by_rules_high [OF this]
    obtain k where k: "k < length (rules self)"
       "final_score srch name ?c (rules self ! k) = best_score srch name ?c (rules self)"
       "?res = rule_result srch name ?c (rules self ! k)"
      using res by auto
    have mem: "rules self ! k \<in> set (rules self)" using k(1) by simp
    show "\<exists>r\<in>set (rules self).
               final_score srch name ?c r = best_score srch name ?c (rules self) \<and>
               category ?res = rule_category r \<and> ctype ?res = rule_ctype r"
      using mem k(2,3) by (intro bexI [of _ "rules self ! k"]) (simp_all add: rule_result_def)
    show "confidence ?res = best_score srch name ?c (rules self)"
      using k(2,3) by (simp add: rule_result_def)
    show "method_tag ?res = ''rule-based''"
      using k(3) by (simp add: rule_result_def)
  }
  {
    assume "best_score srch name ?c (rules self) \<le> 0.5"
    then have "best_score srch name ?c (rules ?self) \<le> 0.5" by simp
    from classify_by_rules_low [OF this] res
    have u: "?res = unclassified_result" by simp
    show "category ?res = ''other''" "ctype ?res = ''unclassified''" "confidence ?res = 0.3"
      using u by (simp_all add: unclassified_result_def)
  }
qed

theorem classify_threshold_witness:
  "cache_probe (sample_classifier False) ''PARK_A'' = None \<and>
   best_score literal_search ''PARK_A''
     (context_or_empty (Some \<lparr>ctx_area = Some 12000000, ctx_vertex_count = Some 4\<rparr>))
     (rules (sample_classifier False)) = 0.9 \<and>
   category (fst (classify literal_search (sample_classifier False) ''PARK_A''
     (Some \<lparr>ctx_area = Some 12000000, ctx_vertex_count = Some 4\<rparr>) ''t0'')) = ''parking'' \<and>
   ctype (fst (classify literal_search (sample_classifier False) ''PARK_A''
     (Some \<lparr>ctx_area = Some 12000000, ctx_vertex_count = Some 4\<rparr>) ''t0'')) = ''basic'' \<and>
   confidence (fst (classify literal_search (sample_classifier False) ''PARK_A''
     (Some \<lparr>ctx_area = Some 12000000, ctx_vertex_count = Some 4\<rparr>) ''t0'')) = 0.9 \<and>
   method_tag (fst (classify literal_search (sample_classifier False) ''PARK_A''
     (Some \<lparr>ctx_area = Some 12000000, ctx_vertex_count = Some 4\<rparr>) ''t0'')) = ''rule-based'' \<and>
   best_score literal_search ''PARK_A''
     (context_or_empty (Some \<lparr>ctx_area = Some 12.5, ctx_vertex_count = Some 4\<rparr>))
     (rules (sample_classifier False)) = 0.27 \<and>
   category (fst (classify literal_search (sample_classifier False) ''PARK_A''
     (Some \<lparr>ctx_area = Some 12.5, ctx_vertex_count = Some 4\<rparr>) ''t0'')) = ''other'' \<and>
   ctype (fst (classify literal_search (sample_classifier False) ''PARK_A''
     (Some \<lparr>ctx_area = Some 12.5, ctx_vertex_count = Some 4\<rparr>) ''t0'')) = ''unclassified'' \<and>
   confidence (fst (classify literal_search (sample_classifier False) ''PARK_A''
     (Some \<lparr>ctx_area = Some 12.5, ctx_vertex_count = Some 4\<rparr>) ''t0'')) = 0.3"
proof -
  have miss: "cache_probe (sample_classifier False) ''PARK_A'' = None"
    by (simp add: cache_probe_def sample_classifier_def)
  have hi: "best_score literal_search ''PARK_A''
     (context_or_empty (Some \<lparr>ctx_area = Some 12000000, ctx_vertex_count = Some 4\<rparr>))
     (rules (sample_classifier False)) = 0.9"
    by (simp add: best_score_def final_score_def match_geometry_def context_or_empty_def
          sample_defs)
  have lo: "best_score literal_search ''PARK_A''
     (context_or_empty (Some \<lparr>ctx_area = Some 12.5, ctx_vertex_count = Some 4\<rparr>))
     (rules (sample_classifier False)) = 0.27"
    by (simp add: best_score_def final_score_def match_geometry_def context_or_empty_def
          sample_defs)
  have fs: "\<And>r. r \<in> set (rules (sample_classifier False)) \<Longrightarrow>
       final_score literal_search ''PARK_A''
         (context_or_empty (Some \<lparr>ctx_area = Some 12000000, ctx_vertex_count = Some 4\<rparr>)) r = 0.9
       \<Longrightarrow> rule_category r = ''parking'' \<and> rule_ctype r = ''basic''"
    by (auto simp: final_score_def match_geometry_def context_or_empty_def sample_defs)
  note a = classify_threshold [OF miss, of literal_search
      "Some \<lparr>ctx_area = Some 12000000, ctx_vertex_count = Some 4\<rparr>" "''t0''"]
  note b = classify_threshold [OF miss, of literal_search
      "Some \<lparr>ctx_area = Some 12.5, ctx_vertex_count = Some 4\<rparr>" "''t0''"]
  from a hi fs have "category (fst (classify literal_search (sample_classifier False) ''PARK_A''
     (Some \<lparr>ctx_area = Some 12000000, ctx_vertex_count = Some 4\<rparr>) ''t0'')) = ''parking'' \<and>
   ctype (fst (classify literal_search (sample_classifier False) ''PARK_A''
     (Some \<lparr>ctx_area = Some 12000000, ctx_vertex_count = Some 4\<rparr>) ''t0'')) = ''basic'' \<and>
   confidence (fst (classify literal_search (sample_classifier False) ''PARK_A''
     (Some \<lparr>ctx_area = Some 12000000, ctx_vertex_count = Some 4\<rparr>) ''t0'')) = 0.9 \<and>
   method_tag (fst (classify literal_search (sample_classifier False) ''PARK_A''
     (Some \<lparr>ctx_area = Some 12000000, ctx_vertex_count = Some 4\<rparr>) ''t0'')) = ''rule-based''"
    by force
  moreover from b lo have "category (fst (classify literal_search (sample_classifier False) ''PARK_A''
     (Some \<lparr>ctx_area = Some 12.5, ctx_vertex_count = Some 4\<rparr>) ''t0'')) = ''other'' \<and>
   ctype (fst (classify literal_search (sample_classifier False) ''PARK_A''
     (Some \<lparr>ctx_area = Some 12.5, ctx_vertex_count = Some 4\<rparr>) ''t0'')) = ''unclassified'' \<and>
   confidence (fst (classify literal_search (sample_classifier False) ''PARK_A''
     (Some \<lparr>ctx_area = Some 12.5, ctx_vertex_count = Some 4\<rparr>) ''t0'')) = 0.3"
    by simp
  ultimately show ?thesis using miss hi lo by simp
qed

text \<open>
  C2. In the scan a rule replaces the best match only when its final score is strictly
  greater than the best so far. So when two rules of the table both attain the best
  final score (above the threshold, the cache not answering), \<^verbatim>\<open>classify\<close> returns the
  classification of the first rule of the table that attains it, which stands at or
  before the earlier of the two.
\<close>

theorem tie_keeps_earlier_rule:
  assumes "cache_probe self name = None"
      and "i < j" and "j < length (rules self)"
      and "final_score srch name (context_or_empty context) (rules self ! i)
             = best_score srch name (context_or_empty context) (rules self)"
      and "final_score srch name (context_or_empty context) (rules self ! j)
             = best_score srch name (context_or_empty context) (rules self)"
      and "best_score srch name (context_or_empty context) (rules self) > 0.5"
  shows "(\<forall>bm bc r.
            scan_rule srch name (context_or_empty context) (bm, bc) r = (bm, bc) \<or>
            bc < final_score srch name (context_or_empty context) r) \<and>
         (\<exists>k\<le>i.
            final_score srch name (context_or_empty context) (rules self ! k)
              = best_score srch name (context_or_empty context) (rules self) \<and>
            (\<forall>l<k. final_score srch name (context_or_empty context) (rules self ! l)
                    < best_score srch name (context_or_empty context) (rules self)) \<and>
            fst (classify srch self name context now)
              = rule_result srch name (context_or_empty context) (rules self ! k))"
proof
  let ?c = "context_or_empty context"
  let ?b = "best_score srch name ?c (rules self)"
  show "\<forall>bm bc r. scan_rule srch name ?c (bm, bc) r = (bm, bc) \<or>
            bc < final_score srch name ?c r"
    by (auto simp: scan_rule_def final_score_def Let_def)
  have "best_score srch name ?c (rules (bump_total_requests self)) > 0.5"
    using assms(6) by simp
  from classify_by_rules_high [OF this]
  obtain k where k: "k < length (rules self)"
      "\<forall>l<k. final_score srch name ?c (rules self ! l) < ?b"
      "fst (classify srch self name context now)
         = rule_result srch name ?c (rules self ! k)"
      "final_score srch name ?c (rules self ! k) = ?b"
    using classify_miss [OF assms(1)] by auto
  have "k \<le> i"
  proof (rule ccontr)
    assume "\<not> k \<le> i"
    then have "i < k" by simp
    with k(2) have "final_score srch name ?c (rules self ! i) < ?b" by blast
    with assms(4) show False by simp
  qed
  with k show "\<exists>k\<le>i. final_score srch name ?c (rules self ! k) = ?b \<and>
            (\<forall>l<k. final_score srch name ?c (rules self ! l) < ?b) \<and>
            fst (classify srch self name context now)
              = rule_result srch name ?c (rules self ! k)"
    by blast
qed

theorem tie_keeps_earlier_rule_witness:
  "cache_probe (sample_classifier False) ''EV_1'' = None \<and>
   (0::nat) < 3 \<and> 3 < length (rules (sample_classifier False)) \<and>
   rules (sample_classifier False) ! 0 = parking_electric \<and>
   rules (sample_classifier False) ! 3 = circulation_elevator \<and>
   final_score literal_search ''EV_1'' (context_or_empty None) parking_electric = 0.95 \<and>
   final_score literal_search ''EV_1'' (context_or_empty None) circulation_elevator = 0.95 \<and>
   best_score literal_search ''EV_1'' (context_or_empty None) (rules (sample_classifier False))
     = 0.95 \<and>
   fst (classify literal_search (sample_classifier False) ''EV_1'' None ''t0'')
     = rule_result literal_search ''EV_1'' (context_or_empty None) parking_electric \<and>
   category (fst (classify literal_search (sample_classifier False) ''EV_1'' None ''t0''))
     = ''parking'' \<and>
   ctype (fst (classify literal_search (sample_classifier False) ''EV_1'' None ''t0''))
     = ''electric''"
proof -
  let ?self = "sample_classifier False"
  let ?c = "context_or_empty None"
  have miss: "cache_probe ?self ''EV_1'' = None"
    by (simp add: cache_probe_def sample_classifier_def)
  have len: "3 < length (rules ?self)" by (simp add: sample_defs)
  have r0: "rules ?self ! 0 = parking_electric"
    by (simp add: sample_classifier_def sample_rules_def)
  have r3: "rules ?self ! 3 = circulation_elevator"
    by (simp add: sample_classifier_def sample_rules_def)
  have f0: "final_score literal_search ''EV_1'' ?c parking_electric = 0.95"
    by (simp add: final_score_def match_geometry_def context_or_empty_def empty_context_def
          parking_electric_def)
  have f3: "final_score literal_search ''EV_1'' ?c circulation_elevator = 0.95"
    by (simp add: final_score_def match_geometry_def context_or_empty_def empty_context_def
          circulation_elevator_def)
  have best: "best_score literal_search ''EV_1'' ?c (rules ?self) = 0.95"
    by (simp add: best_score_def final_score_def match_geometry_def context_or_empty_def
          empty_context_def sample_defs)
  have i: "final_score literal_search ''EV_1'' ?c (rules ?self ! 0)
             = best_score literal_search ''EV_1'' ?c (rules ?self)"
    using r0 f0 best by simp
  have j: "final_score literal_search ''EV_1'' ?c (rules ?self ! 3)
             = best_score literal_search ''EV_1'' ?c (rules ?self)"
    using r3 f3 best by simp
  have high: "best_score literal_search ''EV_1'' ?c (rules ?self) > 0.5"
    using best by simp
  have "fst (classify literal_search ?self ''EV_1'' None ''t0'')
          = rule_result literal_search ''EV_1'' ?c (rules ?self ! 0)"
    using tie_keeps_earlier_rule [OF miss _ len i j high, of "''t0''"] by simp
  then have res: "fst (classify literal_search ?self ''EV_1'' None ''t0'')
          = rule_result literal_search ''EV_1'' ?c parking_electric"
    using r0 by simp
  have "category (rule_result literal_search ''EV_1'' ?c parking_electric) = ''parking''"
       "ctype (rule_result literal_search ''EV_1'' ?c parking_electric) = ''electric''"
    by (simp_all add: rule_result_def parking_electric_def)
  with res miss len r0 r3 f0 f3 best show ?thesis by simp
qed

subsection \<open>The geometry score\<close>

text \<open>
  C3, as stated, fails: for the elevator rule (area range 3 to 10) and a context that
  supplies the area 0, the score is 1, where the stated area factor for a value below
  half the minimum is 0.3.
\<close>

theorem geometry_score_zero_area_counterexample:
  "match_geometry \<lparr>ctx_area = Some 0, ctx_vertex_count = None\<rparr> circulation_elevator = 1 \<and>
   claimed_area_factor \<lparr>ctx_area = Some 0, ctx_vertex_count = None\<rparr> circulation_elevator
     * claimed_vertex_factor \<lparr>ctx_area = Some 0, ctx_vertex_count = None\<rparr> circulation_elevator
     = 0.3 \<and>
   match_geometry \<lparr>ctx_area = Some 0, ctx_vertex_count = None\<rparr> circulation_elevator \<noteq>
   claimed_area_factor \<lparr>ctx_area = Some 0, ctx_vertex_count = None\<rparr> circulation_elevator
     * claimed_vertex_factor \<lparr>ctx_area = Some 0, ctx_vertex_count = None\<rparr> circulation_elevator"
  by (simp add: match_geometry_def claimed_area_factor_def claimed_vertex_factor_def
        circulation_elevator_def)

text \<open>
  C3, amended. The geometry score is the product of the area factor and the vertex-count
  factor, where an axis whose range the rule does not declare, or whose context value is
  missing or zero, has factor 1; otherwise the area factor is 1 within the range, 0.3
  below half the minimum or above double the maximum, 0.7 else, and the vertex-count
  factor is 1 within the range and 0.5 outside.
\<close>

theorem geometry_score_factors:
  "match_geometry c r = area_factor c r * vertex_factor c r"
  by (cases "ctx_area c"; cases "ctx_vertex_count c")
     (auto simp: match_geometry_def area_factor_def vertex_factor_def Let_def
           split: option.splits)

lemma match_geometry_zero_area:
  "match_geometry (c\<lparr>ctx_area := Some 0\<rparr>) r = match_geometry (c\<lparr>ctx_area := None\<rparr>) r"
  by (simp add: match_geometry_def Let_def split: option.splits)

lemma match_geometry_zero_vertex_count:
  "match_geometry (c\<lparr>ctx_vertex_count := Some 0\<rparr>) r
     = match_geometry (c\<lparr>ctx_vertex_count := None\<rparr>) r"
  by (simp add: match_geometry_def Let_def split: option.splits)

lemma scan_rules_geometry_cong:
  assumes "\<And>r. match_geometry c r = match_geometry c' r"
  shows "scan_rules srch n c best rs = scan_rules srch n c' best rs"
proof (induction rs arbitrary: best)
  case Nil
  show ?case by simp
next
  case (Cons r rs)
  have "scan_rule srch n c best r = scan_rule srch n c' best r"
    by (cases best) (simp add: scan_rule_def Let_def assms)
  with Cons.IH show ?case by simp
qed

lemma classify_geometry_cong:
  assumes "\<And>r. match_geometry c r = match_geometry c' r"
  shows "classify srch self n (Some c) now = classify srch self n (Some c') now"
proof -
  have "classify_by_rules srch s n c = classify_by_rules srch s n c'" for s
    by (simp add: classify_by_rules_def scan_rules_geometry_cong [OF assms])
  then show ?thesis
    by (simp add: classify_def context_or_empty_def Let_def split: option.splits)
qed

text \<open>
  C10. A context value of zero is read as a missing value: the geometry score is the same
  for area 0 and for no area, and for vertex count 0 and for no vertex count, against
  every rule; so \<^verbatim>\<open>classify\<close> returns the same result, and leaves the same state, for the
  context \<^verbatim>\<open>{'area': 0.0}\<close> as for \<^verbatim>\<open>{}\<close>.
\<close>

theorem zero_geometry_as_absent:
  "match_geometry (c\<lparr>ctx_area := Some 0\<rparr>) r = match_geometry (c\<lparr>ctx_area := None\<rparr>) r \<and>
   match_geometry (c\<lparr>ctx_vertex_count := Some 0\<rparr>) r
     = match_geometry (c\<lparr>ctx_vertex_count := None\<rparr>) r \<and>
   classify srch self name (Some \<lparr>ctx_area = Some 0, ctx_vertex_count = None\<rparr>) now
     = classify srch self name (Some \<lparr>ctx_area = None, ctx_vertex_count = None\<rparr>) now \<and>
   classify srch self name (Some \<lparr>ctx_area = None, ctx_vertex_count = Some 0\<rparr>) now
     = classify srch self name (Some \<lparr>ctx_area = None, ctx_vertex_count = None\<rparr>) now \<and>
   classify srch self name (Some (c\<lparr>ctx_area := Some 0\<rparr>)) now
     = classify srch self name (Some (c\<lparr>ctx_area := None\<rparr>)) now"
proof -
  have a: "classify srch self name (Some (c\<lparr>ctx_area := Some 0\<rparr>)) now
     = classify srch self name (Some (c\<lparr>ctx_area := None\<rparr>)) now" for c
    by (rule classify_geometry_cong) (rule match_geometry_zero_area)
  have v: "classify srch self name (Some (c\<lparr>ctx_vertex_count := Some 0\<rparr>)) now
     = classify srch self name (Some (c\<lparr>ctx_vertex_count := None\<rparr>)) now" for c
    by (rule classify_geometry_cong) (rule match_geometry_zero_vertex_count)
  show ?thesis
    using a [of c] a [of "\<lparr>ctx_area = None, ctx_vertex_count = None\<rparr>"]
      v [of "\<lparr>ctx_area = None, ctx_vertex_count = None\<rparr>"]
    by (simp add: match_geometry_zero_area match_geometry_zero_vertex_count)
qed

subsection \<open>The cache\<close>

lemma classify_hit:
  assumes "cache_probe self n = Some e"
  shows "classify srch self n context now
           = (entry_of e, bump_cache_hits (bump_total_requests self))"
  using assms by (simp add: classify_def entry_of_def)

lemma classify_by_rules_fst_cong:
  "rules self' = rules self \<Longrightarrow>
   fst (classify_by_rules srch self' n c) = fst (classify_by_rules srch self n c)"
  by (simp add: classify_by_rules_def split: prod.splits option.splits)

lemma classify_by_rules_snd:
  "snd (classify_by_rules srch self n c) = bump_rule_matches self \<or>
   snd (classify_by_rules srch self n c) = bump_unclassified self"
  by (simp add: classify_by_rules_def split: prod.splits option.splits)

lemma classify_miss_state:
  assumes "cache_probe self n = None"
  shows "snd (classify srch self n context now)
         = cache_store (snd (classify_by_rules srch (bump_total_requests self) n (context_or_empty context)))
             n (fst (classify srch self n context now)) now"
  using assms by (simp add: classify_def Let_def split: prod.splits)

lemma bump_fields [simp]:
  "enable_cache (bump_total_requests self) = enable_cache self"
  "enable_cache (bump_rule_matches self) = enable_cache self"
  "enable_cache (bump_unclassified self) = enable_cache self"
  "enable_cache (bump_cache_hits self) = enable_cache self"
  "cache (bump_total_requests self) = cache self"
  "cache (bump_rule_matches self) = cache self"
  "cache (bump_unclassified self) = cache self"
  "cache (bump_cache_hits self) = cache self"
  by (simp_all add: bump_total_requests_def bump_rule_matches_def bump_unclassified_def
        bump_cache_hits_def)

lemma cache_store_fields [simp]:
  "enable_cache (cache_store self n r now) = enable_cache self"
  "rules (cache_store self n r now) = rules self"
  "stats (cache_store self n r now) = stats self"
  by (simp_all add: cache_store_def split: option.splits)

lemma cache_on_store [simp]: "cache_on (cache_store self n r now) = cache_on self"
  by (simp add: cache_on_def cache_store_def split: option.splits)

lemma cache_probe_cong:
  "enable_cache s' = enable_cache s \<Longrightarrow> cache s' = cache s \<Longrightarrow>
   cache_probe s' n = cache_probe s n"
  by (simp add: cache_probe_def)

lemma cache_probe_store:
  "cache_on self \<Longrightarrow>
   cache_probe (cache_store self n r now) n' =
     (if n' = n then Some \<lparr>c_category = category r, c_ctype = ctype r,
                          c_confidence = confidence r, c_reasoning = reasoning r,
                          cached_at = now\<rparr>
      else cache_probe self n')"
  by (auto simp: cache_on_def cache_probe_def cache_store_def cache_set_def cache_get_def)

lemma cache_probe_bumps [simp]:
  "cache_probe (bump_rule_matches self) n = cache_probe self n"
  "cache_probe (bump_unclassified self) n = cache_probe self n"
  "cache_probe (bump_cache_hits self) n = cache_probe self n"
  by (simp_all add: cache_probe_def)

lemma cache_on_bumps [simp]:
  "cache_on (bump_total_requests self) = cache_on self"
  "cache_on (bump_rule_matches self) = cache_on self"
  "cache_on (bump_unclassified self) = cache_on self"
  "cache_on (bump_cache_hits self) = cache_on self"
  by (simp_all add: cache_on_def)

lemma cache_store_off: "\<not> cache_on self \<Longrightarrow> cache_store self n r now = self"
  by (auto simp: cache_on_def cache_store_def split: option.splits)

lemma cache_probe_off: "\<not> cache_on self \<Longrightarrow> cache_probe self n = None"
  by (auto simp: cache_on_def cache_probe_def split: option.splits)

lemma classify_keeps:
  "rules (snd (classify srch self n context now)) = rules self"
  "cache_on (snd (classify srch self n context now)) = cache_on self"
proof -
  let ?s0 = "bump_total_requests self"
  let ?m = "snd (classify_by_rules srch ?s0 n (context_or_empty context))"
  have m: "rules ?m = rules self \<and> cache_on ?m = cache_on self"
    using classify_by_rules_snd [of srch ?s0 n "context_or_empty context"]
    by auto
  show "rules (snd (classify srch self n context now)) = rules self"
  proof (cases "cache_probe self n")
    case None
    then show ?thesis using m by (simp add: classify_miss_state)
  next
    case (Some e)
    then show ?thesis by (simp add: classify_hit)
  qed
  show "cache_on (snd (classify srch self n context now)) = cache_on self"
  proof (cases "cache_probe self n")
    case None
    then show ?thesis using m by (simp add: classify_miss_state)
  next
    case (Some e)
    then show ?thesis by (simp add: classify_hit)
  qed
qed

lemma classify_keeps_entry:
  assumes "cache_probe self n = Some e"
  shows "cache_probe (snd (classify srch self n' context now)) n = Some e"
proof (cases "cache_probe self n'")
  case None
  let ?s0 = "bump_total_requests self"
  let ?m = "snd (classify_by_rules srch ?s0 n' (context_or_empty context))"
  have ne: "n \<noteq> n'" using assms None by auto
  have on: "cache_on self" using assms cache_probe_off [of self n] by auto
  have m: "cache_on ?m \<and> cache_probe ?m n = cache_probe self n"
    using classify_by_rules_snd [of srch ?s0 n' "context_or_empty context"] on
    by auto
  show ?thesis using None m ne assms
    by (simp add: classify_miss_state cache_probe_store)
next
  case (Some e')
  then show ?thesis using assms
    by (simp add: classify_hit)
qed

lemma classify_stores:
  assumes "cache_on self"
  shows "\<exists>e. cache_probe (snd (classify srch self n context now)) n = Some e \<and>
             entry_of e = (fst (classify srch self n context now))\<lparr>method_tag := ''cached''\<rparr>"
proof (cases "cache_probe self n")
  case None
  let ?s0 = "bump_total_requests self"
  let ?m = "snd (classify_by_rules srch ?s0 n (context_or_empty context))"
  have m: "cache_on ?m"
    using classify_by_rules_snd [of srch ?s0 n "context_or_empty context"] assms
    by auto
  show ?thesis using None m
    by (simp add: classify_miss_state cache_probe_store entry_of_def)
next
  case (Some e)
  then show ?thesis
    by (simp add: classify_hit entry_of_def)
qed

lemma classify_all_keeps:
  "rules (classify_all srch self calls) = rules self \<and>
   cache_on (classify_all srch self calls) = cache_on self"
proof (induction calls arbitrary: self)
  case Nil
  show ?case by simp
next
  case (Cons call calls)
  obtain n c now where call: "call = (n, c, now)" by (cases call)
  show ?case using Cons.IH [of "snd (classify srch self n c now)"]
    by (simp add: call classify_keeps)
qed

lemma classify_all_keeps_entry:
  "cache_probe self n = Some e \<Longrightarrow> cache_probe (classify_all srch self calls) n = Some e"
proof (induction calls arbitrary: self)
  case Nil
  then show ?case by simp
next
  case (Cons call calls)
  obtain n' c now where call: "call = (n', c, now)" by (cases call)
  have "cache_probe (snd (classify srch self n' c now)) n = Some e"
    by (rule classify_keeps_entry [OF Cons.prems])
  from Cons.IH [OF this] show ?case by (simp add: call)
qed

lemma classify_off:
  assumes "\<not> cache_on self"
  shows "fst (classify srch self n context now)
         = fst (classify_by_rules srch self n (context_or_empty context))"
proof -
  have "fst (classify srch self n context now)
         = fst (classify_by_rules srch (bump_total_requests self) n (context_or_empty context))"
    by (rule classify_miss [OF cache_probe_off [OF assms]])
  also have "\<dots> = fst (classify_by_rules srch self n (context_or_empty context))"
    by (rule classify_by_rules_fst_cong) simp
  finally show ?thesis .
qed

lemma probe_rules_update [simp]:
  "cache_probe (self\<lparr>rules := rs\<rparr>) n = cache_probe self n"
  by (simp add: cache_probe_def)

text \<open>
  C8. After a call of \<^verbatim>\<open>classify\<close> for a block name, and any run of further calls, a
  call for the same name and context returns the same category, type and confidence.
  With the cache on, that later call returns the first result with the method tag
  \<^verbatim>\<open>cached\<close>, counts a cache hit and nothing else, and its result is the same for
  every matcher, rule table and context: no rule is scored.
\<close>

theorem classify_repeatable:
  "(let (r1, s1) = classify srch self name context now;
        s2 = classify_all srch s1 calls;
        (r2, s3) = classify srch s2 name context now'
    in category r2 = category r1 \<and> ctype r2 = ctype r1 \<and> confidence r2 = confidence r1 \<and>
       (cache_on self \<longrightarrow>
          r2 = r1\<lparr>method_tag := ''cached''\<rparr> \<and>
          s3 = bump_cache_hits (bump_total_requests s2) \<and>
          (\<forall>srch' rs' context'.
             fst (classify srch' (s2\<lparr>rules := rs'\<rparr>) name context' now') = r2)))"
proof -
  obtain r1 s1 where c1: "classify srch self name context now = (r1, s1)"
    by (cases "classify srch self name context now")
  define s2 where "s2 = classify_all srch s1 calls"
  obtain r2 s3 where c2: "classify srch s2 name context now' = (r2, s3)"
    by (cases "classify srch s2 name context now'")
  have keep1: "rules s1 = rules self" "cache_on s1 = cache_on self"
    using classify_keeps [of srch self name "context" now] c1 by simp_all
  have keep2: "rules s2 = rules self" "cache_on s2 = cache_on self"
    using classify_all_keeps [of srch s1 calls] keep1 by (simp_all add: s2_def)
  have on: "cache_on self \<Longrightarrow>
              r2 = r1\<lparr>method_tag := ''cached''\<rparr> \<and>
              s3 = bump_cache_hits (bump_total_requests s2) \<and>
              (\<forall>srch' rs' context'.
                 fst (classify srch' (s2\<lparr>rules := rs'\<rparr>) name context' now') = r2)"
  proof -
    assume "cache_on self"
    from classify_stores [OF this, of srch name "context" now] c1
    obtain e where e: "cache_probe s1 name = Some e"
        "entry_of e = r1\<lparr>method_tag := ''cached''\<rparr>"
      by auto
    have p2: "cache_probe s2 name = Some e"
      unfolding s2_def by (rule classify_all_keeps_entry [OF e(1)])
    have "classify srch s2 name context now'
            = (entry_of e, bump_cache_hits (bump_total_requests s2))"
      by (rule classify_hit [OF p2])
    with c2 e(2) have a: "r2 = r1\<lparr>method_tag := ''cached''\<rparr>"
        "s3 = bump_cache_hits (bump_total_requests s2)"
      by simp_all
    have "\<And>srch' rs' context'.
            fst (classify srch' (s2\<lparr>rules := rs'\<rparr>) name context' now') = r2"
    proof -
      fix srch' rs' context'
      have "cache_probe (s2\<lparr>rules := rs'\<rparr>) name = Some e" using p2 by simp
      from classify_hit [OF this, of srch' context' now'] show
        "fst (classify srch' (s2\<lparr>rules := rs'\<rparr>) name context' now') = r2"
        using a(1) e(2) by simp
    qed
    with a show ?thesis by blast
  qed
  have same: "category r2 = category r1 \<and> ctype r2 = ctype r1 \<and> confidence r2 = confidence r1"
  proof (cases "cache_on self")
    case True
    from on [OF this] show ?thesis by simp
  next
    case False
    have "r1 = fst (classify_by_rules srch self name (context_or_empty context))"
      using classify_off [OF False, of srch name "context" now] c1 by simp
    moreover have "r2 = fst (classify_by_rules srch s2 name (context_or_empty context))"
      using classify_off [of s2 srch name "context" now'] c2 False keep2 by simp
    moreover have "fst (classify_by_rules srch s2 name (context_or_empty context))
        = fst (classify_by_rules srch self name (context_or_empty context))"
      by (rule classify_by_rules_fst_cong) (rule keep2)
    ultimately show ?thesis by simp
  qed
  show ?thesis using c1 c2 same on by (simp add: s2_def [symmetric])
qed

theorem classify_repeatable_witness:
  "cache_on (sample_classifier True) \<and>
   fst (classify literal_search (sample_classifier True) ''PARK_A''
          (Some \<lparr>ctx_area = Some 12000000, ctx_vertex_count = Some 4\<rparr>) ''t0'')
     = \<lparr>category = ''parking'', ctype = ''basic'', confidence = 0.9,
        reasoning = KeywordMatch 1, method_tag = ''rule-based''\<rparr> \<and>
   fst (classify literal_search
          (classify_all literal_search
             (snd (classify literal_search (sample_classifier True) ''PARK_A''
                (Some \<lparr>ctx_area = Some 12000000, ctx_vertex_count = Some 4\<rparr>) ''t0''))
             [(''EV_1'', None, ''t1'')])
          ''PARK_A'' (Some \<lparr>ctx_area = Some 12000000, ctx_vertex_count = Some 4\<rparr>) ''t2'')
     = \<lparr>category = ''parking'', ctype = ''basic'', confidence = 0.9,
        reasoning = KeywordMatch 1, method_tag = ''cached''\<rparr>"
proof -
  have on: "cache_on (sample_classifier True)"
    by (simp add: cache_on_def sample_classifier_def)
  have first: "fst (classify literal_search (sample_classifier True) ''PARK_A''
          (Some \<lparr>ctx_area = Some 12000000, ctx_vertex_count = Some 4\<rparr>) ''t0'')
     = \<lparr>category = ''parking'', ctype = ''basic'', confidence = 0.9,
        reasoning = KeywordMatch 1, method_tag = ''rule-based''\<rparr>"
    by (simp add: classify_def classify_by_rules_def scan_rule_def match_geometry_def
          cache_probe_def cache_get_def context_or_empty_def bump_total_requests_def Let_def
          sample_defs)
  show ?thesis
    using classify_repeatable [of literal_search "sample_classifier True" "''PARK_A''"
        "Some \<lparr>ctx_area = Some 12000000, ctx_vertex_count = Some 4\<rparr>" "''t0''"
        "[(''EV_1'', None, ''t1'')]" "''t2''"] on first
    by (simp add: Let_def split_beta)
qed

section \<open>Properties of the geometry utilities\<close>

lemma radians_90: "radians 90 = pi / 2"
  by (simp add: radians_def)


text \<open>
  C4. \<^verbatim>\<open>transform_vertices\<close> maps every vertex by scaling, then rotation about the origin,
  then translation by the insertion point. For the square of side 10 centred at the
  origin, scale (2, 1), rotation 90 degrees and translation (100, 100), the result is
  (105, 90), (105, 110), (95, 110), (95, 90), and each of the five other orders of the
  three steps gives a different list.
\<close>

theorem transform_scale_rotate_translate:
  "transform_vertices vs ip rot sx sy
     = map (\<lambda>v. translate_point ip (rotate_point rot (scale_point sx sy v))) vs \<and>
   transform_vertices square10 (100, 100) 90 2 1
     = [(105, 90), (105, 110), (95, 110), (95, 90)] \<and>
   transform_vertices square10 (100, 100) 90 2 1
     \<noteq> map (\<lambda>v. rotate_point 90 (translate_point (100, 100) (scale_point 2 1 v))) square10 \<and>
   transform_vertices square10 (100, 100) 90 2 1
     \<noteq> map (\<lambda>v. translate_point (100, 100) (scale_point 2 1 (rotate_point 90 v))) square10 \<and>
   transform_vertices square10 (100, 100) 90 2 1
     \<noteq> map (\<lambda>v. scale_point 2 1 (translate_point (100, 100) (rotate_point 90 v))) square10 \<and>
   transform_vertices square10 (100, 100) 90 2 1
     \<noteq> map (\<lambda>v. rotate_point 90 (scale_point 2 1 (translate_point (100, 100) v))) square10 \<and>
   transform_vertices square10 (100, 100) 90 2 1
     \<noteq> map (\<lambda>v. scale_point 2 1 (rotate_point 90 (translate_point (100, 100) v))) square10"
proof -
  have gen: "transform_vertices vs ip rot sx sy
     = map (\<lambda>v. translate_point ip (rotate_point rot (scale_point sx sy v))) vs" for vs ip rot sx sy
    by (simp add: transform_vertices_def Let_def translate_point_def rotate_point_def
          scale_point_def case_prod_beta)
  have ex: "transform_vertices square10 (100, 100) 90 2 1
     = [(105, 90), (105, 110), (95, 110), (95, 90)]"
    by (simp add: gen square10_def translate_point_def rotate_point_def scale_point_def
          radians_90)
  show ?thesis
    unfolding ex
    by (simp add: gen square10_def translate_point_def rotate_point_def scale_point_def
          radians_90)
qed


section \<open>Properties of the block extractor\<close>

subsection \<open>The equations of the traversal, case by case\<close>

declare extract_from_insert.simps [simp del]

lemma efi_deep: "d > m \<Longrightarrow> extract_from_insert doc gc i d m pt = ([], gc)"
  by (simp add: extract_from_insert.simps)

lemma efi_missing:
  "blocks doc (dxf_name i) = None \<Longrightarrow> extract_from_insert doc gc i d m pt = ([], gc)"
  by (simp add: extract_from_insert.simps)

lemma efi_found:
  assumes "\<not> d > m" and "blocks doc (dxf_name i) = Some b"
  shows "extract_from_insert doc gc i d m pt =
           (own_entities (fst (extract_block_geometry gc b)) i
              @ fst (extract_nested doc (snd (extract_block_geometry gc b)) (bentities b) (d + 1) m),
            snd (extract_nested doc (snd (extract_block_geometry gc b)) (bentities b) (d + 1) m))"
  using assms
  by (simp add: extract_from_insert.simps own_entities_def Let_def split_beta)

lemma en_insert [simp]:
  "extract_nested doc gc (INSERT ins # rest) d m =
     (fst (extract_from_insert doc gc ins d m None)
        @ fst (extract_nested doc (snd (extract_from_insert doc gc ins d m None)) rest d m),
      snd (extract_nested doc (snd (extract_from_insert doc gc ins d m None)) rest d m))"
  by (simp add: Let_def split_beta)

lemma en_other [simp]:
  "extract_nested doc gc (LWPOLYLINE pts # rest) d m = extract_nested doc gc rest d m"
  "extract_nested doc gc (POLYLINE pts # rest) d m = extract_nested doc gc rest d m"
  "extract_nested doc gc (CIRCLE c r # rest) d m = extract_nested doc gc rest d m"
  "extract_nested doc gc (OTHER t # rest) d m = extract_nested doc gc rest d m"
  by simp_all


declare extract_nested.simps(2) [simp del]

lemma extract_modelspace_nested:
  "extract_modelspace doc gc es m = extract_nested doc gc es 0 m"
proof (induction es arbitrary: gc)
  case Nil
  show ?case by simp
next
  case (Cons x es)
  then show ?case by (cases x) (simp_all add: Let_def split_beta)
qed


subsection \<open>The scan of a block\<close>

lemma scan_entity_long:
  assumes "case fst acc of None \<Rightarrow> True | Some g \<Rightarrow> 3 \<le> length g"
  shows "case fst (scan_entity acc x) of None \<Rightarrow> True | Some g \<Rightarrow> 3 \<le> length g"
  using assms
  by (cases acc) (auto simp: scan_entity_def Let_def split: option.splits)

lemma foldl_scan_long:
  "(case fst acc of None \<Rightarrow> True | Some g \<Rightarrow> 3 \<le> length g) \<Longrightarrow>
   (case fst (foldl scan_entity acc es) of None \<Rightarrow> True | Some g \<Rightarrow> 3 \<le> length g)"
proof (induction es arbitrary: acc)
  case Nil
  then show ?case by simp
next
  case (Cons x es)
  from Cons.IH [OF scan_entity_long [OF Cons.prems, of x]] show ?case by simp
qed

lemma scan_block_long: "scan_block es = Some g \<Longrightarrow> 3 \<le> length g"
  using foldl_scan_long [of "(None, 0)" es] by (simp add: scan_block_def)

lemma scan_block_nonempty: "scan_block es = Some g \<Longrightarrow> g \<noteq> []"
  using scan_block_long [of es g] by auto



lemma scan_entity_skip: "entity_vertices x = None \<Longrightarrow> scan_entity acc x = acc"
  by (cases acc) (simp add: scan_entity_def)

lemma foldl_scan_skip:
  "\<forall>x\<in>set es. entity_vertices x = None \<Longrightarrow> foldl scan_entity acc es = acc"
  by (induction es arbitrary: acc) (simp_all add: scan_entity_skip)

lemma unit_square_nonempty: "unit_square \<noteq> []"
  by (simp add: unit_square_def)

lemma area_unit_square: "calculate_area unit_square = 1"
  by (simp add: calculate_area_def unit_square_def Let_def)

lemma scan_square:
  assumes "\<forall>x\<in>set es. entity_vertices x = None"
  shows "scan_block (LWPOLYLINE unit_square # es) = Some unit_square"
proof -
  have "scan_entity (None, 0) (LWPOLYLINE unit_square) = (Some unit_square, 1)"
    by (simp add: scan_entity_def area_unit_square) (simp add: unit_square_def)
  then show ?thesis
    by (simp add: scan_block_def foldl_scan_skip [OF assms])
qed


subsection \<open>The geometry cache\<close>

lemma ebg_hit: "gc (bname b) = Some g \<Longrightarrow> extract_block_geometry gc b = (Some g, gc)"
  by (simp add: extract_block_geometry_def)

lemma ebg_miss:
  "gc (bname b) = None \<Longrightarrow>
   extract_block_geometry gc b =
     (scan_block (bentities b),
      (case scan_block (bentities b) of
         None \<Rightarrow> gc
       | Some g \<Rightarrow> if g \<noteq> [] then gc(bname b \<mapsto> g) else gc))"
  by (simp add: extract_block_geometry_def Let_def)

lemma ebg_ok:
  assumes "names_ok doc" and "cache_ok doc gc" and "blocks doc n = Some b"
  shows "fst (extract_block_geometry gc b) = scan_block (bentities b)"
    and "cache_ok doc (snd (extract_block_geometry gc b))"
proof -
  show "fst (extract_block_geometry gc b) = scan_block (bentities b)"
  proof (cases "gc (bname b)")
    case None
    then show ?thesis by (simp add: ebg_miss)
  next
    case (Some g)
    with assms(2,3) have "scan_block (bentities b) = Some g"
      unfolding cache_ok_def by blast
    with Some show ?thesis by (simp add: ebg_hit)
  qed
  show "cache_ok doc (snd (extract_block_geometry gc b))"
  proof (cases "gc (bname b)")
    case (Some g)
    then show ?thesis using assms(2) by (simp add: ebg_hit)
  next
    case None
    show ?thesis
    proof (cases "scan_block (bentities b)")
      case none: None
      then show ?thesis using None assms(2) by (simp add: ebg_miss)
    next
      case (Some g)
      show ?thesis
      proof (cases "g = []")
        case True
        then show ?thesis using None Some assms(2) by (simp add: ebg_miss)
      next
        case False
        have "cache_ok doc (gc(bname b \<mapsto> g))"
          unfolding cache_ok_def
        proof (intro allI impI)
          fix n' b' g'
          assume h: "blocks doc n' = Some b' \<and> (gc(bname b \<mapsto> g)) (bname b') = Some g'"
          show "scan_block (bentities b') = Some g'"
          proof (cases "bname b' = bname b")
            case True
            with h assms(1,3) have "b' = b" unfolding names_ok_def by blast
            with h Some show ?thesis by simp
          next
            case False
            with h assms(2) show ?thesis unfolding cache_ok_def by auto
          qed
        qed
        then show ?thesis using None Some False by (simp add: ebg_miss)
      qed
    qed
  qed
qed

lemma ebg_grows: "gc \<subseteq>\<^sub>m snd (extract_block_geometry gc b)"
proof (cases "gc (bname b)")
  case None
  then show ?thesis
    by (auto simp: ebg_miss map_le_def split: option.splits)
next
  case (Some g)
  then show ?thesis by (simp add: ebg_hit)
qed

lemma cache_ok_empty: "cache_ok doc Map.empty"
  by (simp add: cache_ok_def)


subsection \<open>The traversal yields what is expected, whatever the cache holds\<close>

lemma en_from_efi:
  assumes step: "\<And>gc i. cache_ok doc gc \<Longrightarrow>
            cache_ok doc (snd (extract_from_insert doc gc i d m None)) \<and>
            gc \<subseteq>\<^sub>m snd (extract_from_insert doc gc i d m None) \<and>
            fst (extract_from_insert doc gc i d m None) = F i"
      and ok: "cache_ok doc gc"
  shows "cache_ok doc (snd (extract_nested doc gc es d m)) \<and>
         gc \<subseteq>\<^sub>m snd (extract_nested doc gc es d m) \<and>
         fst (extract_nested doc gc es d m) = concat (map F (inserts es))"
  using ok
proof (induction es arbitrary: gc)
  case Nil
  then show ?case by simp
next
  case (Cons x es)
  show ?case
  proof (cases x)
    case (INSERT ins)
    let ?gc1 = "snd (extract_from_insert doc gc ins d m None)"
    from step [OF Cons.prems, of ins]
    have a: "cache_ok doc ?gc1" and g: "gc \<subseteq>\<^sub>m ?gc1"
      and b: "fst (extract_from_insert doc gc ins d m None) = F ins"
      by simp_all
    from Cons.IH [OF a]
    have r: "cache_ok doc (snd (extract_nested doc ?gc1 es d m))"
        "?gc1 \<subseteq>\<^sub>m snd (extract_nested doc ?gc1 es d m)"
        "fst (extract_nested doc ?gc1 es d m) = concat (map F (inserts es))"
      by simp_all
    have "gc \<subseteq>\<^sub>m snd (extract_nested doc ?gc1 es d m)"
      by (rule map_le_trans [OF g r(2)])
    then show ?thesis using r(1,3) b by (simp add: INSERT)
  next
    case (LWPOLYLINE pts)
    with Cons.IH [OF Cons.prems] show ?thesis by simp
  next
    case (POLYLINE pts)
    with Cons.IH [OF Cons.prems] show ?thesis by simp
  next
    case (CIRCLE c r)
    with Cons.IH [OF Cons.prems] show ?thesis by simp
  next
    case (OTHER t)
    with Cons.IH [OF Cons.prems] show ?thesis by simp
  qed
qed

lemma expected_missing:
  "blocks doc (dxf_name i) = None \<Longrightarrow> expected doc n i = []"
  by (cases n) (simp_all add: own_def children_def)

lemma expected_leaf: "children doc i = [] \<Longrightarrow> expected doc n i = own doc i"
  by (cases n) simp_all

lemma efi_exact_aux:
  assumes names: "names_ok doc"
  shows "nat (m + 1 - d) \<le> k \<Longrightarrow> cache_ok doc gc \<Longrightarrow>
         cache_ok doc (snd (extract_from_insert doc gc i d m pt)) \<and>
         gc \<subseteq>\<^sub>m snd (extract_from_insert doc gc i d m pt) \<and>
         fst (extract_from_insert doc gc i d m pt)
           = (if d > m then [] else expected doc (nat (m - d)) i)"
proof (induction k arbitrary: d gc i pt)
  case 0
  then have "d > m" by simp
  then show ?case using "0.prems"(2) by (simp add: efi_deep)
next
  case (Suc k)
  show ?case
  proof (cases "d > m")
    case True
    then show ?thesis using Suc.prems(2) by (simp add: efi_deep)
  next
    case shallow: False
    show ?thesis
    proof (cases "blocks doc (dxf_name i)")
      case None
      then show ?thesis using Suc.prems(2) by (simp add: efi_missing expected_missing)
    next
      case (Some b)
      let ?g = "fst (extract_block_geometry gc b)"
      let ?gc1 = "snd (extract_block_geometry gc b)"
      let ?N = "extract_nested doc ?gc1 (bentities b) (d + 1) m"
      let ?F = "\<lambda>c. if d + 1 > m then [] else expected doc (nat (m - (d + 1))) c"
      have g: "?g = scan_block (bentities b)" and ok1: "cache_ok doc ?gc1"
        using ebg_ok [OF names Suc.prems(2) Some] by simp_all
      have deeper: "nat (m + 1 - (d + 1)) \<le> k" using Suc.prems(1) shallow by simp
      have nested: "cache_ok doc (snd ?N) \<and> ?gc1 \<subseteq>\<^sub>m snd ?N \<and>
           fst ?N = concat (map ?F (inserts (bentities b)))"
        by (rule en_from_efi [OF Suc.IH [OF deeper] ok1])
      have grows: "gc \<subseteq>\<^sub>m snd ?N"
        using map_le_trans [OF ebg_grows [of gc b]] nested by blast
      have own: "own_entities ?g i = own doc i"
        using g Some by (simp add: own_def)
      have kids: "children doc i = inserts (bentities b)"
        using Some by (simp add: children_def)
      have "own doc i @ concat (map ?F (inserts (bentities b))) = expected doc (nat (m - d)) i"
      proof (cases "d = m")
        case True
        then show ?thesis by simp
      next
        case False
        with shallow have "nat (m - d) = Suc (nat (m - (d + 1)))" by simp
        then show ?thesis using False shallow kids by simp
      qed
      then show ?thesis
        using nested grows own shallow by (simp add: efi_found [OF shallow Some])
    qed
  qed
qed

lemma efi_exact:
  assumes "names_ok doc" and "cache_ok doc gc"
  shows "fst (extract_from_insert doc gc i d m pt)
           = (if d > m then [] else expected doc (nat (m - d)) i)"
    and "cache_ok doc (snd (extract_from_insert doc gc i d m pt))"
    and "gc \<subseteq>\<^sub>m snd (extract_from_insert doc gc i d m pt)"
  using efi_exact_aux [OF assms(1) order_refl assms(2), where m = m and d = d and i = i and pt = pt]
  by simp_all

lemma extract_all_exact:
  assumes "names_ok doc" and "cache_ok doc gc"
  shows "fst (extract_all_blocks doc gc m)
           = (if m < 0 then [] else concat (map (expected doc (nat m)) (inserts (modelspace doc))))"
    and "cache_ok doc (snd (extract_all_blocks doc gc m))"
    and "gc \<subseteq>\<^sub>m snd (extract_all_blocks doc gc m)"
proof -
  let ?F = "\<lambda>i. if 0 > m then [] else expected doc (nat (m - 0)) i"
  have step: "\<And>gc i. cache_ok doc gc \<Longrightarrow>
            cache_ok doc (snd (extract_from_insert doc gc i 0 m None)) \<and>
            gc \<subseteq>\<^sub>m snd (extract_from_insert doc gc i 0 m None) \<and>
            fst (extract_from_insert doc gc i 0 m None) = ?F i"
    using efi_exact [OF assms(1)] by blast
  from en_from_efi [of doc 0 m ?F, OF step assms(2), of "modelspace doc"]
  show "fst (extract_all_blocks doc gc m)
           = (if m < 0 then [] else concat (map (expected doc (nat m)) (inserts (modelspace doc))))"
    and "cache_ok doc (snd (extract_all_blocks doc gc m))"
    and "gc \<subseteq>\<^sub>m snd (extract_all_blocks doc gc m)"
    by (simp_all add: extract_all_blocks_def extract_modelspace_nested)
qed

lemma set_own: "set (own doc i) = {e. entity_of_instance doc i e}"
proof (cases "blocks doc (dxf_name i)")
  case None
  then show ?thesis by (simp add: own_def entity_of_instance_def)
next
  case (Some b)
  show ?thesis
  proof (cases "scan_block (bentities b)")
    case None
    with Some show ?thesis by (simp add: own_def own_entities_def entity_of_instance_def)
  next
    case g: (Some g)
    with Some scan_block_nonempty [OF g] show ?thesis
      by (auto simp: own_def own_entities_def entity_of_instance_def)
  qed
qed

lemma set_expected:
  "set (expected doc n i)
     = {e. \<exists>j i'. j \<le> n \<and> i' \<in> set (below doc j i) \<and> entity_of_instance doc i' e}"
proof (induction n arbitrary: i)
  case 0
  show ?case by (auto simp: set_own)
next
  case (Suc n)
  show ?case
  proof (intro set_eqI iffI)
    fix e assume "e \<in> set (expected doc (Suc n) i)"
    then consider "e \<in> set (own doc i)" | c where "c \<in> set (children doc i)" "e \<in> set (expected doc n c)"
      by auto
    then show "e \<in> {e. \<exists>j i'. j \<le> Suc n \<and> i' \<in> set (below doc j i) \<and> entity_of_instance doc i' e}"
    proof cases
      case 1
      then have "entity_of_instance doc i e" by (simp add: set_own)
      moreover have "i \<in> set (below doc 0 i)" by simp
      ultimately show ?thesis by blast
    next
      case 2
      from 2(2) obtain j i' where j: "j \<le> n" "i' \<in> set (below doc j c)" "entity_of_instance doc i' e"
        unfolding Suc.IH by blast
      have "i' \<in> set (below doc (Suc j) i)" using 2(1) j(2) by auto
      moreover have "Suc j \<le> Suc n" using j(1) by simp
      ultimately show ?thesis using j(3) by blast
    qed
  next
    fix e assume "e \<in> {e. \<exists>j i'. j \<le> Suc n \<and> i' \<in> set (below doc j i) \<and> entity_of_instance doc i' e}"
    then obtain j i' where j: "j \<le> Suc n" "i' \<in> set (below doc j i)" "entity_of_instance doc i' e"
      by blast
    show "e \<in> set (expected doc (Suc n) i)"
    proof (cases j)
      case 0
      with j have "e \<in> set (own doc i)" by (simp add: set_own)
      then show ?thesis by simp
    next
      case (Suc j')
      with j(2) obtain c where c: "c \<in> set (children doc i)" "i' \<in> set (below doc j' c)"
        by auto
      have "j' \<le> n" using j(1) Suc by simp
      with c(2) j(3) have "e \<in> set (expected doc n c)" unfolding Suc.IH by blast
      with c(1) show ?thesis by auto
    qed
  qed
qed

lemma block_name_make [simp]: "block_name (make_entity i g) = dxf_name i"
  by (simp add: make_entity_def Let_def)


subsection \<open>The sample drawings\<close>

lemma chain_names_facts: "length chain_names = 16" "distinct chain_names"
  by (simp_all add: chain_names_def)

lemma chain_lookup:
  assumes "k < 16"
  shows "blocks chain_doc (chain_names ! k) = Some (chain_block k)"
proof -
  have "map_of (zip chain_names (map chain_block [0..<16])) (chain_names ! k)
          = Some (map chain_block [0..<16] ! k)"
    by (rule map_of_zip_nth) (simp_all add: chain_names_facts assms)
  then show ?thesis using assms by (simp add: chain_doc_def)
qed

lemma chain_lookup_inv:
  assumes "blocks chain_doc n = Some b"
  shows "\<exists>k<16. n = chain_names ! k \<and> b = chain_block k"
proof -
  from assms have "(n, b) \<in> set (zip chain_names (map chain_block [0..<16]))"
    by (auto simp: chain_doc_def dest: map_of_SomeD)
  then obtain k where "k < 16" "chain_names ! k = n" "map chain_block [0..<16] ! k = b"
    by (auto simp: in_set_zip chain_names_facts)
  then show ?thesis by auto
qed

lemma names_ok_chain: "names_ok chain_doc"
  unfolding names_ok_def
proof (intro allI impI)
  fix n n' b b'
  assume h: "blocks chain_doc n = Some b \<and> blocks chain_doc n' = Some b' \<and> bname b = bname b'"
  then obtain k k' where k: "k < 16" "b = chain_block k" "k' < 16" "b' = chain_block k'"
    using chain_lookup_inv by blast
  with h have "chain_names ! k = chain_names ! k'" by (simp add: chain_block_def)
  with k(1,3) have "k = k'"
    using chain_names_facts by (simp add: nth_eq_iff_index_eq)
  with k show "b = b'" by simp
qed

lemma chain_own:
  assumes "k < 16"
  shows "own chain_doc (place (chain_names ! k))
           = [make_entity (place (chain_names ! k)) unit_square]"
proof -
  have "scan_block (bentities (chain_block k)) = Some unit_square"
    by (simp add: chain_block_def scan_square)
  moreover have "unit_square \<noteq> []" by (simp add: unit_square_def)
  ultimately show ?thesis
    using chain_lookup [OF assms] by (simp add: own_def own_entities_def place_def)
qed

lemma chain_children:
  assumes "k < 16"
  shows "children chain_doc (place (chain_names ! k))
           = (if k < 15 then [place (chain_names ! Suc k)] else [])"
  using chain_lookup [OF assms] by (simp add: children_def place_def chain_block_def)

lemma chain_expected:
  "k + n \<le> 15 \<Longrightarrow>
   expected chain_doc n (place (chain_names ! k))
     = map (\<lambda>j. make_entity (place (chain_names ! j)) unit_square) [k..<Suc (k + n)]"
proof (induction n arbitrary: k)
  case 0
  then show ?case by (simp add: chain_own)
next
  case (Suc n)
  then have "Suc k + n \<le> 15" by simp
  note ih = Suc.IH [OF this]
  have u: "[k..<Suc (k + Suc n)] = k # [Suc k..<Suc (Suc k + n)]"
    by (subst upt_rec) simp
  show ?case
    unfolding u using ih Suc.prems
    by (simp add: chain_own chain_children del: upt_Suc)
qed

lemma chain_below:
  "k + j \<le> 15 \<Longrightarrow> below chain_doc j (place (chain_names ! k)) = [place (chain_names ! (k + j))]"
proof (induction j arbitrary: k)
  case 0
  show ?case by simp
next
  case (Suc j)
  then have "Suc k + j \<le> 15" by simp
  from Suc.IH [OF this] Suc.prems show ?case
    by (simp add: chain_children)
qed

lemma chain_modelspace: "inserts (modelspace chain_doc) = [place (chain_names ! 0)]"
  by (simp add: chain_doc_def chain_names_def)

lemma chain_run:
  "fst (extract_all_blocks chain_doc Map.empty 10)
     = map (\<lambda>j. make_entity (place (chain_names ! j)) unit_square) [0..<11]"
  using chain_expected [of 0 10]
  by (simp add: extract_all_exact(1) [OF names_ok_chain cache_ok_empty] chain_modelspace)

lemma chain_run_names:
  "map block_name (fst (extract_all_blocks chain_doc Map.empty 10))
     = [''B0'', ''B1'', ''B2'', ''B3'', ''B4'', ''B5'', ''B6'', ''B7'', ''B8'', ''B9'', ''B10'']"
  unfolding chain_run
  by (simp add: upt_rec [of _ "numeral _"] place_def chain_names_def o_def)

lemma chain_depth_15: "instances_at chain_doc 15 = [place ''B15'']"
  using chain_below [of 0 15]
  by (simp add: instances_at_def chain_modelspace) (simp add: chain_names_def)

lemma names_ok_loop: "names_ok loop_doc"
  by (auto simp: names_ok_def loop_doc_def split: if_splits)

lemma loop_expected:
  "expected loop_doc n (place ''LOOP'')
     = replicate (Suc n) (make_entity (place ''LOOP'') unit_square)"
proof (induction n)
  case 0
  show ?case
    by (simp add: own_def own_entities_def loop_doc_def place_def scan_square
          unit_square_nonempty)
next
  case (Suc n)
  have o: "own loop_doc (place ''LOOP'') = [make_entity (place ''LOOP'') unit_square]"
    by (simp add: own_def own_entities_def loop_doc_def place_def scan_square
          unit_square_nonempty)
  have c: "children loop_doc (place ''LOOP'') = [place ''LOOP'']"
    by (simp add: children_def loop_doc_def place_def)
  show ?case using Suc.IH by (simp add: o c)
qed

lemma loop_run:
  "fst (extract_all_blocks loop_doc Map.empty 10)
     = replicate 11 (make_entity (place ''LOOP'') unit_square)"
proof -
  have "inserts (modelspace loop_doc) = [place ''LOOP'']" by (simp add: loop_doc_def)
  then show ?thesis
    using loop_expected [of 10]
    by (simp add: extract_all_exact(1) [OF names_ok_loop cache_ok_empty])
qed

lemma names_ok_nest: "names_ok nest_doc"
  by (auto simp: names_ok_def nest_doc_def split: if_splits)

lemma nest_own_a: "own nest_doc parent_a = [make_entity parent_a unit_square]"
  by (simp add: own_def own_entities_def nest_doc_def parent_a_def scan_square
        unit_square_nonempty)

lemma nest_own_b: "own nest_doc parent_b = [make_entity parent_b unit_square]"
  by (simp add: own_def own_entities_def nest_doc_def parent_b_def scan_square
        unit_square_nonempty)

lemma nest_run_a:
  "fst (extract_from_insert nest_doc Map.empty parent_a 0 10 None)
     = [make_entity parent_a unit_square, make_entity child_at unit_square]"
proof -
  have c: "children nest_doc parent_a = [child_at]"
    by (simp add: children_def nest_doc_def parent_a_def)
  have c2: "children nest_doc child_at = []"
    by (simp add: children_def nest_doc_def child_at_def)
  have o: "own nest_doc child_at = [make_entity child_at unit_square]"
    by (simp add: own_def own_entities_def nest_doc_def child_at_def scan_square
          unit_square_nonempty)
  have "expected nest_doc (Suc n) parent_a
          = [make_entity parent_a unit_square, make_entity child_at unit_square]" for n
    by (simp add: nest_own_a c o expected_leaf [OF c2])
  from this [of 9] show ?thesis
    by (simp add: efi_exact(1) [OF names_ok_nest cache_ok_empty])
qed

lemma vertices_child: "vertices (make_entity child_at unit_square) = [(5, 5), (6, 5), (6, 6), (5, 6)]"
  by (simp add: make_entity_def child_at_def unit_square_def transform_vertices_def
        getattr_scale_def radians_def Let_def)

lemma vertices_parent_a:
  "vertices (make_entity parent_a unit_square) = [(100, 100), (100, 102), (99, 102), (99, 100)]"
  by (simp add: make_entity_def parent_a_def unit_square_def transform_vertices_def
        getattr_scale_def radians_90 Let_def)



subsection \<open>Nested instances\<close>

text \<open>
  C5. In a drawing whose block names identify its blocks, with a cache that agrees with
  it: the entities \<^verbatim>\<open>_extract_from_insert\<close> returns for an instance within the depth
  limit are the instance's own entity followed by a list for the nested instances, and
  that list, like the cache returned, is the same for every other placement (insertion
  point, rotation, scales, parent transform) of the same block. Each entity of that list
  is the entity of an instance below: built from that instance's own attributes and the
  polygon of its own block.
\<close>

theorem nested_entities_ignore_parent_placement:
  assumes "names_ok doc" and "cache_ok doc gc" and "dxf_name p' = dxf_name p" and "d \<le> m"
  shows "snd (extract_from_insert doc gc p' d m pt') = snd (extract_from_insert doc gc p d m pt) \<and>
         (\<exists>kids.
            fst (extract_from_insert doc gc p d m pt) = own doc p @ kids \<and>
            fst (extract_from_insert doc gc p' d m pt') = own doc p' @ kids \<and>
            (\<forall>e\<in>set kids. \<exists>j c. c \<in> set (below doc (Suc j) p) \<and> d + 1 + int j \<le> m \<and>
                                  entity_of_instance doc c e))"
proof
  have nd: "\<not> d > m" using assms(4) by simp
  show "snd (extract_from_insert doc gc p' d m pt') = snd (extract_from_insert doc gc p d m pt)"
  proof (cases "blocks doc (dxf_name p)")
    case None
    then show ?thesis using assms(3) by (simp add: efi_missing)
  next
    case (Some b)
    then have "blocks doc (dxf_name p') = Some b" using assms(3) by simp
    then show ?thesis using Some by (simp add: efi_found [OF nd])
  qed
  define kids where
    "kids = (if d < m then concat (map (expected doc (nat (m - (d + 1)))) (children doc p)) else [])"
  have ch: "children doc p' = children doc p"
    using assms(3) by (simp add: children_def)
  have ex: "expected doc (nat (m - d)) q = own doc q @
              (if d < m then concat (map (expected doc (nat (m - (d + 1)))) (children doc q)) else [])"
    for q
  proof (cases "d < m")
    case True
    then have "nat (m - d) = Suc (nat (m - (d + 1)))" by simp
    then show ?thesis using True by simp
  next
    case False
    with assms(4) have "nat (m - d) = 0" by simp
    then show ?thesis using False by simp
  qed
  have a: "fst (extract_from_insert doc gc p d m pt) = own doc p @ kids"
    using nd ex [of p] by (simp add: efi_exact(1) [OF assms(1,2)] kids_def)
  have b: "fst (extract_from_insert doc gc p' d m pt') = own doc p' @ kids"
    using nd ex [of p'] ch by (simp add: efi_exact(1) [OF assms(1,2)] kids_def)
  have c: "\<forall>e\<in>set kids. \<exists>j c. c \<in> set (below doc (Suc j) p) \<and> d + 1 + int j \<le> m \<and>
                                  entity_of_instance doc c e"
  proof
    fix e assume "e \<in> set kids"
    then obtain c0 where c0: "d < m" "c0 \<in> set (children doc p)"
        "e \<in> set (expected doc (nat (m - (d + 1))) c0)"
      by (auto simp: kids_def split: if_splits)
    from c0(3) obtain j c where j: "j \<le> nat (m - (d + 1))" "c \<in> set (below doc j c0)"
        "entity_of_instance doc c e"
      unfolding set_expected by blast
    have "c \<in> set (below doc (Suc j) p)" using c0(2) j(2) by auto
    moreover have "d + 1 + int j \<le> m" using j(1) c0(1) by simp
    ultimately show "\<exists>j c. c \<in> set (below doc (Suc j) p) \<and> d + 1 + int j \<le> m \<and>
                                  entity_of_instance doc c e"
      using j(3) by blast
  qed
  from a b c show "\<exists>kids.
            fst (extract_from_insert doc gc p d m pt) = own doc p @ kids \<and>
            fst (extract_from_insert doc gc p' d m pt') = own doc p' @ kids \<and>
            (\<forall>e\<in>set kids. \<exists>j c. c \<in> set (below doc (Suc j) p) \<and> d + 1 + int j \<le> m \<and>
                                  entity_of_instance doc c e)"
    by blast
qed

theorem nested_entities_ignore_parent_placement_witness:
  "names_ok nest_doc \<and> cache_ok nest_doc Map.empty \<and> dxf_name parent_b = dxf_name parent_a \<and>
   (0::int) \<le> 10 \<and>
   fst (extract_from_insert nest_doc Map.empty parent_a 0 10 None)
     = [make_entity parent_a unit_square, make_entity child_at unit_square] \<and>
   fst (extract_from_insert nest_doc Map.empty parent_b 0 10 None)
     = [make_entity parent_b unit_square, make_entity child_at unit_square] \<and>
   vertices (make_entity parent_a unit_square) = [(100, 100), (100, 102), (99, 102), (99, 100)] \<and>
   vertices (make_entity child_at unit_square) = [(5, 5), (6, 5), (6, 6), (5, 6)]"
proof -
  have nm: "dxf_name parent_b = dxf_name parent_a"
    by (simp add: parent_a_def parent_b_def)
  from nested_entities_ignore_parent_placement
         [OF names_ok_nest cache_ok_empty nm, of 0 10 None None]
  obtain kids where
    a: "fst (extract_from_insert nest_doc Map.empty parent_a 0 10 None) = own nest_doc parent_a @ kids"
    and b: "fst (extract_from_insert nest_doc Map.empty parent_b 0 10 None) = own nest_doc parent_b @ kids"
    by auto
  from a have "kids = [make_entity child_at unit_square]"
    by (simp add: nest_run_a nest_own_a)
  with b have "fst (extract_from_insert nest_doc Map.empty parent_b 0 10 None)
     = [make_entity parent_b unit_square, make_entity child_at unit_square]"
    by (simp add: nest_own_b)
  then show ?thesis
    using names_ok_nest cache_ok_empty nm nest_run_a vertices_child vertices_parent_a by simp
qed


subsection \<open>The version with the recursion limit\<close>

declare extract_from_insert_limited.simps(2) [simp del]

lemma efl_deep:
  "d > m \<Longrightarrow> extract_from_insert_limited doc gc i d m pt (Suc f) = Inr ([], gc)"
  by (simp add: extract_from_insert_limited.simps(2))

lemma efl_missing:
  "blocks doc (dxf_name i) = None \<Longrightarrow>
   extract_from_insert_limited doc gc i d m pt (Suc f) = Inr ([], gc)"
  by (simp add: extract_from_insert_limited.simps(2))

lemma efl_found:
  assumes "\<not> d > m" and "blocks doc (dxf_name i) = Some b"
  shows "extract_from_insert_limited doc gc i d m pt (Suc f) =
           (case extract_nested_limited doc (snd (extract_block_geometry gc b)) (bentities b)
                   (d + 1) m f of
              Inl err \<Rightarrow> Inl err
            | Inr r \<Rightarrow> Inr (own_entities (fst (extract_block_geometry gc b)) i @ fst r, snd r))"
  using assms
  by (simp add: extract_from_insert_limited.simps(2) own_entities_def Let_def split_beta
           split: sum.splits)

lemma enl_insert [simp]:
  "extract_nested_limited doc gc (INSERT ins # rest) d m f =
     (case extract_from_insert_limited doc gc ins d m None f of
        Inl err \<Rightarrow> Inl err
      | Inr r \<Rightarrow>
          (case extract_nested_limited doc (snd r) rest d m f of
             Inl err \<Rightarrow> Inl err
           | Inr r' \<Rightarrow> Inr (fst r @ fst r', snd r')))"
  by (simp add: split_beta split: sum.splits)

lemma enl_other [simp]:
  "extract_nested_limited doc gc (LWPOLYLINE pts # rest) d m f = extract_nested_limited doc gc rest d m f"
  "extract_nested_limited doc gc (POLYLINE pts # rest) d m f = extract_nested_limited doc gc rest d m f"
  "extract_nested_limited doc gc (CIRCLE c r # rest) d m f = extract_nested_limited doc gc rest d m f"
  "extract_nested_limited doc gc (OTHER t # rest) d m f = extract_nested_limited doc gc rest d m f"
  by simp_all


declare extract_nested_limited.simps(2) [simp del]

lemma enl_refines:
  assumes "\<And>c gc. c \<in> set (inserts es) \<Longrightarrow>
             extract_from_insert_limited doc gc c d m None f = Inr (extract_from_insert doc gc c d m None)"
  shows "extract_nested_limited doc gc es d m f = Inr (extract_nested doc gc es d m)"
  using assms
proof (induction es arbitrary: gc)
  case Nil
  show ?case by simp
next
  case (Cons x es)
  show ?case
  proof (cases x)
    case (INSERT ins)
    have a: "extract_from_insert_limited doc gc ins d m None f = Inr (extract_from_insert doc gc ins d m None)"
      using Cons.prems [of ins gc] INSERT by simp
    have b: "extract_nested_limited doc gc' es d m f = Inr (extract_nested doc gc' es d m)" for gc'
      using Cons.IH [of gc'] Cons.prems INSERT by simp
    show ?thesis by (simp add: INSERT a b)
  next
    case (LWPOLYLINE pts)
    with Cons show ?thesis by simp
  next
    case (POLYLINE pts)
    with Cons show ?thesis by simp
  next
    case (CIRCLE c r)
    with Cons show ?thesis by simp
  next
    case (OTHER t)
    with Cons show ?thesis by simp
  qed
qed

lemma fits_child:
  assumes "fits doc i d m (Suc f)" and "\<not> d > m" and "c \<in> set (children doc i)"
  shows "fits doc c (d + 1) m f"
proof -
  from assms(1) consider "m - d + 2 \<le> int (Suc f)" | "below doc (Suc f) i = []"
    by (auto simp: fits_def)
  then show ?thesis
  proof cases
    case 1
    with assms(2) show ?thesis by (simp add: fits_def)
  next
    case 2
    with assms(3) have e: "below doc f c = []" by simp
    have "0 < f"
    proof (rule ccontr)
      assume "\<not> 0 < f"
      then have "f = 0" by simp
      with e show False by simp
    qed
    with e show ?thesis by (simp add: fits_def)
  qed
qed

lemma efl_refines:
  "fits doc i d m f \<Longrightarrow>
   extract_from_insert_limited doc gc i d m pt f = Inr (extract_from_insert doc gc i d m pt)"
proof (induction f arbitrary: i d gc pt)
  case 0
  then show ?case by (simp add: fits_def)
next
  case (Suc f)
  show ?case
  proof (cases "d > m")
    case True
    then show ?thesis by (simp add: efl_deep efi_deep)
  next
    case shallow: False
    show ?thesis
    proof (cases "blocks doc (dxf_name i)")
      case None
      then show ?thesis by (simp add: efl_missing efi_missing)
    next
      case (Some b)
      have kids: "children doc i = inserts (bentities b)"
        using Some by (simp add: children_def)
      have "extract_nested_limited doc gc' (bentities b) (d + 1) m f
              = Inr (extract_nested doc gc' (bentities b) (d + 1) m)" for gc'
      proof (rule enl_refines)
        fix c gc''
        assume "c \<in> set (inserts (bentities b))"
        then have "fits doc c (d + 1) m f"
          using fits_child [OF Suc.prems shallow] kids by simp
        then show "extract_from_insert_limited doc gc'' c (d + 1) m None f
                     = Inr (extract_from_insert doc gc'' c (d + 1) m None)"
          by (rule Suc.IH)
      qed
      then show ?thesis
        by (simp add: efl_found [OF shallow Some] efi_found [OF shallow Some])
    qed
  qed
qed

lemma eml_nested:
  "extract_modelspace_limited doc gc es m f = extract_nested_limited doc gc es 0 m f"
proof (induction es arbitrary: gc)
  case Nil
  show ?case by simp
next
  case (Cons x es)
  then show ?case by (cases x) (simp_all add: split_beta split: sum.splits)
qed

lemma eal_refines:
  assumes "\<forall>i\<in>set (inserts (modelspace doc)). fits doc i 0 m f"
  shows "extract_all_blocks_limited doc gc m f = Inr (extract_all_blocks doc gc m)"
proof -
  have "extract_nested_limited doc gc (modelspace doc) 0 m f
          = Inr (extract_nested doc gc (modelspace doc) 0 m)"
    by (rule enl_refines) (use assms efl_refines in blast)
  then show ?thesis
    by (simp add: extract_all_blocks_limited_def eml_nested extract_all_blocks_def
          extract_modelspace_nested)
qed

lemma loop_raises:
  "int f < m - d + 2 \<Longrightarrow>
   extract_from_insert_limited loop_doc gc (place ''LOOP'') d m pt f = Inl RecursionError"
proof (induction f arbitrary: d gc pt)
  case 0
  show ?case by simp
next
  case (Suc f)
  then have shallow: "\<not> d > m" and deeper: "int f < m - (d + 1) + 2" by simp_all
  have b: "blocks loop_doc (dxf_name (place ''LOOP''))
             = Some \<lparr>bname = ''LOOP'',
                     bentities = [LWPOLYLINE unit_square, INSERT (place ''LOOP'')]\<rparr>"
    by (simp add: loop_doc_def place_def)
  show ?case
    by (simp add: efl_found [OF shallow b] Suc.IH [OF deeper])
qed


lemma chain_below_empty:
  "k \<le> 15 \<Longrightarrow> 15 < k + j \<Longrightarrow> below chain_doc j (place (chain_names ! k)) = []"
proof (induction j arbitrary: k)
  case 0
  then show ?case by simp
next
  case (Suc j)
  show ?case
  proof (cases "k < 15")
    case True
    then have "Suc k \<le> 15" "15 < Suc k + j" using Suc.prems by simp_all
    from Suc.IH [OF this] True show ?thesis by (simp add: chain_children)
  next
    case False
    with Suc.prems have "k = 15" by simp
    then show ?thesis by (simp add: chain_children)
  qed
qed

lemma chain_fits_shallow: "fits chain_doc (place (chain_names ! 0)) 0 10 12"
  by (simp add: fits_def)

lemma chain_fits_deep: "fits chain_doc (place (chain_names ! 0)) 0 5000 17"
  using chain_below_empty [of 0 17] by (simp add: fits_def)

lemma loop_fits: "fits loop_doc (place ''LOOP'') 0 10 12"
  by (simp add: fits_def)


lemma extract_all_depths:
  assumes "names_ok doc" and "cache_ok doc gc"
  shows "set (fst (extract_all_blocks doc gc m))
           = {e. \<exists>d ins. int d \<le> m \<and> ins \<in> set (instances_at doc d) \<and>
                          entity_of_instance doc ins e}"
proof (cases "m < 0")
  case True
  then show ?thesis by (simp add: extract_all_exact(1) [OF assms])
next
  case False
  then have n: "\<And>d. (int d \<le> m) = (d \<le> nat m)" by auto
  show ?thesis
    using False
    by (auto simp: extract_all_exact(1) [OF assms] set_expected instances_at_def n)
qed


subsection \<open>The depth limit\<close>

text \<open>
  C6, as stated, fails: on the block that places itself, with depth limit 1000 and room
  for 1000 nested activations (more than the interpreter's limit of 1000 frames leaves),
  or for 900, \<^verbatim>\<open>extract_all_blocks\<close> raises \<^verbatim>\<open>RecursionError\<close> and yields no entities.
\<close>

theorem extraction_recursion_limit_counterexample:
  "extract_all_blocks_limited loop_doc Map.empty 1000 1000 = Inl RecursionError \<and>
   extract_all_blocks_limited loop_doc Map.empty 1000 900 = Inl RecursionError"
  using loop_raises [of 1000 1000 0 Map.empty None] loop_raises [of 900 1000 0 Map.empty None]
  by (simp add: extract_all_blocks_limited_def loop_doc_def)


text \<open>
  C6, amended. The recursion as written is total: its depth grows at each nested call
  and it stops above the limit, whatever the blocks refer to. Under the interpreter's
  recursion limit, in a drawing whose block names identify its blocks and with a cache
  that agrees with it, whenever the traversal from each instance of the model space fits
  in the activations available, \<^verbatim>\<open>extract_all_blocks\<close> returns, and the entities it
  returns for a limit \<open>m\<close> are exactly the entities of the instances at depths 0 to \<open>m\<close>;
  a call at a depth above \<open>m\<close> that has an activation returns no entity and leaves the
  cache as it is.
\<close>

theorem extraction_depth_bound_within_limit:
  assumes "names_ok doc" and "cache_ok doc gc"
      and "\<forall>ins\<in>set (inserts (modelspace doc)). fits doc ins 0 m frames"
  shows "(\<exists>es gc'. extract_all_blocks_limited doc gc m frames = Inr (es, gc') \<and>
            set es = {e. \<exists>d ins. int d \<le> m \<and> ins \<in> set (instances_at doc d) \<and>
                           entity_of_instance doc ins e}) \<and>
         (\<forall>gc' ins d pt f. d > m \<longrightarrow>
            extract_from_insert_limited doc gc' ins d m pt (Suc f) = Inr ([], gc'))"
proof
  have "extract_all_blocks_limited doc gc m frames
          = Inr (fst (extract_all_blocks doc gc m), snd (extract_all_blocks doc gc m))"
    using eal_refines [OF assms(3)] by simp
  with extract_all_depths [OF assms(1,2)]
  show "\<exists>es gc'. extract_all_blocks_limited doc gc m frames = Inr (es, gc') \<and>
            set es = {e. \<exists>d ins. int d \<le> m \<and> ins \<in> set (instances_at doc d) \<and>
                           entity_of_instance doc ins e}"
    by blast
  show "\<forall>gc' ins d pt f. d > m \<longrightarrow>
            extract_from_insert_limited doc gc' ins d m pt (Suc f) = Inr ([], gc')"
    by (simp add: efl_deep)
qed

theorem extraction_depth_bound_within_limit_witness:
  "names_ok chain_doc \<and> cache_ok chain_doc Map.empty \<and>
   inserts (modelspace chain_doc) = [place ''B0''] \<and>
   fits chain_doc (place ''B0'') 0 10 12 \<and>
   instances_at chain_doc 15 = [place ''B15''] \<and>
   extract_all_blocks_limited chain_doc Map.empty 10 12
     = Inr (extract_all_blocks chain_doc Map.empty 10) \<and>
   map block_name (fst (extract_all_blocks chain_doc Map.empty 10))
     = [''B0'', ''B1'', ''B2'', ''B3'', ''B4'', ''B5'', ''B6'', ''B7'', ''B8'', ''B9'', ''B10''] \<and>
   set (fst (extract_all_blocks chain_doc Map.empty 10))
     = {e. \<exists>d ins. int d \<le> 10 \<and> ins \<in> set (instances_at chain_doc d) \<and>
                    entity_of_instance chain_doc ins e} \<and>
   extract_from_insert_limited chain_doc Map.empty (place ''B11'') 11 10 None 1
     = Inr ([], Map.empty) \<and>
   fits chain_doc (place ''B0'') 0 5000 17 \<and>
   extract_all_blocks_limited chain_doc Map.empty 5000 17
     = Inr (extract_all_blocks chain_doc Map.empty 5000) \<and>
   names_ok loop_doc \<and> fits loop_doc (place ''LOOP'') 0 10 12 \<and>
   extract_all_blocks_limited loop_doc Map.empty 10 12
     = Inr (extract_all_blocks loop_doc Map.empty 10) \<and>
   fst (extract_all_blocks loop_doc Map.empty 10)
     = replicate 11 (make_entity (place ''LOOP'') unit_square)"
proof -
  have b0: "place ''B0'' = place (chain_names ! 0)" by (simp add: chain_names_def)
  have ms: "inserts (modelspace chain_doc) = [place ''B0'']"
    by (simp add: chain_modelspace b0)
  have f1: "\<forall>ins\<in>set (inserts (modelspace chain_doc)). fits chain_doc ins 0 10 12"
    using chain_fits_shallow by (simp add: chain_modelspace)
  have f2: "\<forall>ins\<in>set (inserts (modelspace chain_doc)). fits chain_doc ins 0 5000 17"
    using chain_fits_deep by (simp add: chain_modelspace)
  have f3: "\<forall>ins\<in>set (inserts (modelspace loop_doc)). fits loop_doc ins 0 10 12"
    using loop_fits by (simp add: loop_doc_def)
  note t = extraction_depth_bound_within_limit [OF names_ok_chain cache_ok_empty f1]
  from t obtain es gc' where
    r: "extract_all_blocks_limited chain_doc Map.empty 10 12 = Inr (es, gc')"
    and s: "set es = {e. \<exists>d ins. int d \<le> 10 \<and> ins \<in> set (instances_at chain_doc d) \<and>
                    entity_of_instance chain_doc ins e}"
    by blast
  have e1: "extract_all_blocks_limited chain_doc Map.empty 10 12
     = Inr (extract_all_blocks chain_doc Map.empty 10)"
    by (rule eal_refines [OF f1])
  with r have "es = fst (extract_all_blocks chain_doc Map.empty 10)" by simp
  with s have s': "set (fst (extract_all_blocks chain_doc Map.empty 10))
     = {e. \<exists>d ins. int d \<le> 10 \<and> ins \<in> set (instances_at chain_doc d) \<and>
                    entity_of_instance chain_doc ins e}"
    by simp
  have d: "extract_from_insert_limited chain_doc Map.empty (place ''B11'') 11 10 None 1
     = Inr ([], Map.empty)"
    using t by simp
  have e2: "extract_all_blocks_limited chain_doc Map.empty 5000 17
     = Inr (extract_all_blocks chain_doc Map.empty 5000)"
    by (rule eal_refines [OF f2])
  have e3: "extract_all_blocks_limited loop_doc Map.empty 10 12
     = Inr (extract_all_blocks loop_doc Map.empty 10)"
    by (rule eal_refines [OF f3])
  show ?thesis
    using names_ok_chain cache_ok_empty ms chain_fits_shallow chain_depth_15 e1 chain_run_names
      s' d chain_fits_deep e2 names_ok_loop loop_fits e3 loop_run
    by (simp add: b0)
qed


subsection \<open>Resolving a block twice\<close>

text \<open>
  C7, as stated, fails: a block whose only polyline has two points resolves to absent,
  and after the call its name is not in the cache, so the next call scans again.
\<close>

theorem resolver_memo_counterexample:
  "fst (extract_block_geometry Map.empty degenerate_block) = None \<and>
   \<not> memoized (snd (extract_block_geometry Map.empty degenerate_block)) degenerate_block"
  by (simp add: extract_block_geometry_def scan_block_def scan_entity_def memoized_def
        degenerate_block_def Let_def)


text \<open>
  C7, amended. Resolving a block twice returns the same result and leaves the cache as the
  first call left it. When the result is a polygon, the block's name is in the cache after
  the first call, a later call returns that polygon whatever the block's entities are (it
  does not scan them), and so does a call after any further traversal of the drawing.
  When the result is absent, the name is not in the cache after the call.
\<close>

theorem resolver_idempotent:
  "(let (g1, gc1) = extract_block_geometry gc b;
        (g2, gc2) = extract_block_geometry gc1 b
    in g2 = g1 \<and> gc2 = gc1 \<and>
       (g1 \<noteq> None \<longrightarrow>
          memoized gc1 b \<and>
          (\<forall>es. extract_block_geometry gc1 (b\<lparr>bentities := es\<rparr>) = (g1, gc1)) \<and>
          (\<forall>doc n ins d m pt.
             names_ok doc \<and> cache_ok doc gc \<and> blocks doc n = Some b \<longrightarrow>
             fst (extract_block_geometry (snd (extract_from_insert doc gc1 ins d m pt)) b) = g1)) \<and>
       (g1 = None \<longrightarrow> \<not> memoized gc1 b))"
proof -
  obtain g1 gc1 where r1: "extract_block_geometry gc b = (g1, gc1)"
    by (cases "extract_block_geometry gc b")
  have entry: "g1 \<noteq> None \<Longrightarrow> gc1 (bname b) = g1"
  proof (cases "gc (bname b)")
    case None
    assume "g1 \<noteq> None"
    with r1 None obtain g where g: "scan_block (bentities b) = Some g" "g1 = Some g"
      by (auto simp: ebg_miss)
    with r1 None scan_block_nonempty [OF g(1)] show ?thesis by (auto simp: ebg_miss)
  next
    case (Some g)
    with r1 show ?thesis by (simp add: ebg_hit)
  qed
  have absent: "g1 = None \<Longrightarrow> gc1 (bname b) = None"
  proof (cases "gc (bname b)")
    case None
    assume "g1 = None"
    with r1 None show ?thesis by (auto simp: ebg_miss)
  next
    case (Some g)
    assume "g1 = None"
    with r1 Some show ?thesis by (simp add: ebg_hit)
  qed
  have again: "extract_block_geometry gc1 b = (g1, gc1)"
  proof (cases g1)
    case None
    have "gc1 = gc \<and> scan_block (bentities b) = None"
    proof (cases "gc (bname b)")
      case n: None
      with r1 None show ?thesis by (auto simp: ebg_miss split: option.splits)
    next
      case (Some g)
      with r1 None show ?thesis by (simp add: ebg_hit)
    qed
    with absent [OF None] None show ?thesis by (simp add: ebg_miss)
  next
    case (Some g)
    with entry have "gc1 (bname b) = Some g" by simp
    then show ?thesis using Some by (simp add: ebg_hit)
  qed
  have hit: "g1 \<noteq> None \<Longrightarrow> extract_block_geometry gc1 (b\<lparr>bentities := es\<rparr>) = (g1, gc1)" for es
  proof -
    assume "g1 \<noteq> None"
    then obtain g where g: "g1 = Some g" by auto
    with entry have "gc1 (bname (b\<lparr>bentities := es\<rparr>)) = Some g" by simp
    then show ?thesis using g by (simp add: ebg_hit)
  qed
  have later: "g1 \<noteq> None \<Longrightarrow> names_ok doc \<and> cache_ok doc gc \<and> blocks doc n = Some b \<Longrightarrow>
      fst (extract_block_geometry (snd (extract_from_insert doc gc1 ins d m pt)) b) = g1"
    for doc n ins d m pt
  proof -
    assume nn: "g1 \<noteq> None" and h: "names_ok doc \<and> cache_ok doc gc \<and> blocks doc n = Some b"
    then obtain g where g: "g1 = Some g" by auto
    have ok1: "cache_ok doc gc1"
      using ebg_ok(2) [of doc gc n b] h r1 by simp
    have "gc1 \<subseteq>\<^sub>m snd (extract_from_insert doc gc1 ins d m pt)"
      using efi_exact(3) [of doc gc1] h ok1 by blast
    moreover have "gc1 (bname b) = Some g" using entry g by simp
    ultimately have "snd (extract_from_insert doc gc1 ins d m pt) (bname b) = Some g"
      by (auto simp: map_le_def dom_def)
    then show ?thesis using g by (simp add: ebg_hit)
  qed
  have memo: "g1 \<noteq> None \<Longrightarrow> memoized gc1 b" using entry by (auto simp: memoized_def)
  have nomemo: "g1 = None \<Longrightarrow> \<not> memoized gc1 b" using absent by (simp add: memoized_def)
  show ?thesis
    using r1 again memo nomemo hit later by (simp add: Let_def) blast
qed

theorem resolver_idempotent_witness:
  "extract_block_geometry Map.empty square_block = (Some unit_square, [''C'' \<mapsto> unit_square]) \<and>
   extract_block_geometry [''C'' \<mapsto> unit_square] square_block
     = (Some unit_square, [''C'' \<mapsto> unit_square]) \<and>
   memoized [''C'' \<mapsto> unit_square] square_block \<and>
   extract_block_geometry [''C'' \<mapsto> unit_square] (square_block\<lparr>bentities := []\<rparr>)
     = (Some unit_square, [''C'' \<mapsto> unit_square]) \<and>
   extract_block_geometry Map.empty degenerate_block = (None, Map.empty) \<and>
   \<not> memoized Map.empty degenerate_block"
proof -
  have g: "extract_block_geometry Map.empty square_block = (Some unit_square, [''C'' \<mapsto> unit_square])"
    by (simp add: ebg_miss square_block_def scan_square unit_square_nonempty)
  have d: "extract_block_geometry Map.empty degenerate_block = (None, Map.empty)"
    by (simp add: ebg_miss degenerate_block_def scan_block_def scan_entity_def)
  from resolver_idempotent [of Map.empty square_block] g
  have "extract_block_geometry [''C'' \<mapsto> unit_square] square_block
     = (Some unit_square, [''C'' \<mapsto> unit_square]) \<and>
   memoized [''C'' \<mapsto> unit_square] square_block \<and>
   extract_block_geometry [''C'' \<mapsto> unit_square] (square_block\<lparr>bentities := []\<rparr>)
     = (Some unit_square, [''C'' \<mapsto> unit_square])"
    by (auto simp: Let_def split: prod.splits)
  moreover from resolver_idempotent [of Map.empty degenerate_block] d
  have "\<not> memoized Map.empty degenerate_block" by simp
  ultimately show ?thesis using g d by simp
qed


subsection \<open>Missing blocks and blocks without a polygon\<close>






end
